theory Spec2Isabelle
  imports Main "HOL-Library.Word"
begin

unbundle bit_operations_syntax

section \<open>Data model (types.go, ccboot.go)\<close>

type_synonym byte = "8 word"
type_synonym uint32 = "32 word"

text \<open>
  The package's sentinel errors (ccboot.go, lines 29-39). A transport may also return an
  error of its own; \<open>ErrForeign\<close> stands for any error value that is none of the six.
\<close>

datatype error =
    ErrSerial
  | ErrDevice
  | ErrDeviceTimeout
  | ErrBadPacket
  | ErrBadArguments
  | ErrNotImplemented
  | ErrForeign nat

text \<open>
  What a call does: it returns a value with a nil error (\<open>Ok\<close>), it returns a non-nil
  error (\<open>Err\<close>), or the Go run time panics (\<open>Panic\<close>: an index out of range).
\<close>

datatype 'a result = Ok 'a | Err error | Panic

definition numAttempts :: int where
  "numAttempts = 3"

definition CC_ACK :: byte where
  "CC_ACK = 0xCC"

definition CC_NACK :: byte where
  "CC_NACK = 0x33"

type_synonym CommandType = byte

definition COMMAND_PING :: CommandType where "COMMAND_PING = 0x20"
definition COMMAND_DOWNLOAD :: CommandType where "COMMAND_DOWNLOAD = 0x21"
definition COMMAND_GET_STATUS :: CommandType where "COMMAND_GET_STATUS = 0x23"
definition COMMAND_SEND_DATA :: CommandType where "COMMAND_SEND_DATA = 0x24"
definition COMMAND_RESET :: CommandType where "COMMAND_RESET = 0x25"
definition COMMAND_SECTOR_ERASE :: CommandType where "COMMAND_SECTOR_ERASE = 0x26"
definition COMMAND_CRC32 :: CommandType where "COMMAND_CRC32 = 0x27"
definition COMMAND_GET_CHIP_ID :: CommandType where "COMMAND_GET_CHIP_ID = 0x28"
definition COMMAND_MEMORY_READ :: CommandType where "COMMAND_MEMORY_READ = 0x2A"
definition COMMAND_MEMORY_WRITE :: CommandType where "COMMAND_MEMORY_WRITE = 0x2B"
definition COMMAND_BANK_ERASE :: CommandType where "COMMAND_BANK_ERASE = 0x2C"
definition COMMAND_SET_CCFG :: CommandType where "COMMAND_SET_CCFG = 0x2D"

record Command =
  Type :: CommandType
  Parameters :: "byte list"

type_synonym ReadWriteType = byte

definition ReadWriteType8Bit :: ReadWriteType where "ReadWriteType8Bit = 0"
definition ReadWriteType32Bit :: ReadWriteType where "ReadWriteType32Bit = 1"

definition ReadMaxCount8Bit :: byte where "ReadMaxCount8Bit = 253"
definition ReadMaxCount32Bit :: byte where "ReadMaxCount32Bit = 63"
definition WriteMaxCount8Bit :: byte where "WriteMaxCount8Bit = 247"
definition WriteMaxCount32Bit :: byte where "WriteMaxCount32Bit = 244"

type_synonym CCFG_FieldID = uint32

section \<open>Marshaling and unmarshaling helpers (ccboot.go, lines 444-506)\<close>

text \<open>
  Go's built-in \<open>copy(buf[k:], src)\<close>: it overwrites as many elements of \<open>buf\<close> from
  index \<open>k\<close> on as both slices have, and leaves the rest of \<open>buf\<close> as it was.
\<close>

definition copy_at :: "'a list \<Rightarrow> nat \<Rightarrow> 'a list \<Rightarrow> 'a list" where
  "copy_at buf k src =
     take k buf @ take (length buf - k) src
       @ drop (k + min (length buf - k) (length src)) buf"

text \<open>\<open>checksum\<close>: the loop \<open>sum += b\<close> over the data, on an unsigned 8-bit sum.\<close>

definition checksum :: "byte list \<Rightarrow> byte" where
  "checksum data = fold (\<lambda>b sum. sum + b) data 0"

text \<open>\<open>encodeSize\<close>: \<open>byte(size & 0xFF)\<close> on a Go \<open>int\<close>.\<close>

definition encodeSize :: "int \<Rightarrow> byte" where
  "encodeSize sz = word_of_int (sz AND 0xFF)"

definition encodePacket :: "byte list \<Rightarrow> byte list" where
  "encodePacket data =
     (let sz = 2 + int (length data);
          buf = replicate (nat sz) (0 :: byte);
          buf = buf[0 := encodeSize sz];
          buf = buf[1 := checksum data]
      in copy_at buf 2 data)"

definition decodePacket :: "byte list \<Rightarrow> byte list result" where
  "decodePacket pkt =
     (if int (length pkt) < 3 then Err ErrBadPacket
      else if encodeSize (int (length pkt)) \<noteq> pkt ! 0 then Err ErrBadPacket
      else if checksum (drop 2 pkt) \<noteq> pkt ! 1 then Err ErrBadPacket
      else Ok (drop 2 pkt))"

text \<open>\<open>Command.Marshal\<close> (types.go, lines 62-68).\<close>

definition Marshal :: "Command \<Rightarrow> byte list" where
  "Marshal c =
     (let sz = 1 + int (length (Parameters c));
          buf = replicate (nat sz) (0 :: byte);
          buf = buf[0 := Type c]
      in copy_at buf 1 (Parameters c))"

definition encodeCmdPacket :: "CommandType \<Rightarrow> byte list \<Rightarrow> byte list" where
  "encodeCmdPacket cmd parameters =
     encodePacket (Marshal \<lparr>Type = cmd, Parameters = parameters\<rparr>)"

text \<open>
  The four bytes every command builds from a 32-bit argument \<open>v\<close>:
  \<open>byte((v >> (3 * 8)) & 0xFF)\<close>, \<open>byte((v >> (2 * 8)) & 0xFF)\<close>,
  \<open>byte((v >> (1 * 8)) & 0xFF)\<close>, \<open>byte((v >> (0 * 8)) & 0xFF)\<close>.
\<close>

definition bytes_of_uint32 :: "uint32 \<Rightarrow> byte list" where
  "bytes_of_uint32 v =
     [ucast (drop_bit (3 * 8) v AND 0xFF),
      ucast (drop_bit (2 * 8) v AND 0xFF),
      ucast (drop_bit (1 * 8) v AND 0xFF),
      ucast (drop_bit (0 * 8) v AND 0xFF)]"

section \<open>The transport (io.ReadWriteCloser)\<close>

text \<open>
  The port is an external collaborator. One call of \<open>Read\<close> on the one-byte buffer of
  \<open>recvNonZero\<close> and \<open>recvByte\<close> yields the count \<open>n\<close>, the content of \<open>buf[0]\<close>
  after the call, and the error (\<open>None\<close> is nil). One call of \<open>Write\<close> yields the
  count and the error. The port's behaviour is a script: the outcome of the i-th read,
  and the outcome of the i-th write as a function of the buffer written. The state of a
  port is the number of reads made and the list of the buffers written so far.
\<close>

datatype read_result = ReadResult (rd_n: int) (rd_buf0: byte) (rd_err: "error option")

datatype write_result = WriteResult (wr_n: int) (wr_err: "error option")

record port =
  rd_script :: "nat \<Rightarrow> read_result"
  rd_pos :: nat
  wr_script :: "nat \<Rightarrow> byte list \<Rightarrow> write_result"
  written :: "byte list list"

definition port_Read :: "port \<Rightarrow> read_result \<times> port" where
  "port_Read d = (rd_script d (rd_pos d), d\<lparr>rd_pos := Suc (rd_pos d)\<rparr>)"

definition port_Write :: "port \<Rightarrow> byte list \<Rightarrow> write_result \<times> port" where
  "port_Write d buf =
     (wr_script d (length (written d)) buf, d\<lparr>written := written d @ [buf]\<rparr>)"

text \<open>A read that times out, and a read that delivers one byte.\<close>

definition read_timeout :: read_result where
  "read_timeout = ReadResult 0 0 None"

definition read_byte :: "byte \<Rightarrow> read_result" where
  "read_byte b = ReadResult 1 b None"

text \<open>A port whose every write is complete and without error.\<close>

definition wr_ok :: "nat \<Rightarrow> byte list \<Rightarrow> write_result" where
  "wr_ok i buf = WriteResult (int (length buf)) None"

definition writes_ok :: "port \<Rightarrow> bool" where
  "writes_ok d = (wr_script d = wr_ok)"

section \<open>Low level serial interface (ccboot.go, lines 86-162)\<close>

text \<open>
  \<open>recvNonZero\<close>: the loop of lines 89-115, with the local \<open>attempts\<close> as an argument.
  The loop may run forever, so the function is partial: \<open>None\<close> is not returning.
\<close>

partial_function (option) recvNonZero_loop :: "port \<Rightarrow> int \<Rightarrow> (port \<times> byte result) option" where
  "recvNonZero_loop d attempts =
     (if attempts > numAttempts then Some (d, Err ErrDeviceTimeout)
      else
        let r = fst (port_Read d); d1 = snd (port_Read d) in
        if rd_err r \<noteq> None then Some (d1, Err (the (rd_err r)))
        else if rd_n r = 0 then recvNonZero_loop d1 (attempts + 1)
        else if rd_n r = 1 then
          (if rd_buf0 r = 0x00 then recvNonZero_loop d1 attempts
           else Some (d1, Ok (rd_buf0 r)))
        else Some (d1, Err ErrSerial))"

declare recvNonZero_loop.simps [code]

definition recvNonZero :: "port \<Rightarrow> (port \<times> byte result) option" where
  "recvNonZero d = recvNonZero_loop d 0"

text \<open>\<open>recvByte\<close>: the loop of lines 121-143; every round returns or counts up.\<close>

function recvByte_loop :: "port \<Rightarrow> int \<Rightarrow> port \<times> byte result" where
  "recvByte_loop d attempts =
     (if attempts > numAttempts then (d, Err ErrDeviceTimeout)
      else
        let r = fst (port_Read d); d1 = snd (port_Read d) in
        if rd_err r \<noteq> None then (d1, Err (the (rd_err r)))
        else if rd_n r = 0 then recvByte_loop d1 (attempts + 1)
        else if rd_n r = 1 then (d1, Ok (rd_buf0 r))
        else (d1, Err ErrSerial))"
  by pat_completeness auto
termination
  by (relation "measure (\<lambda>(d, attempts). nat (numAttempts + 1 - attempts))") auto

declare recvByte_loop.simps [simp del]

definition recvByte :: "port \<Rightarrow> port \<times> byte result" where
  "recvByte d = recvByte_loop d 0"

definition recvAck :: "port \<Rightarrow> (port \<times> byte result) option" where
  "recvAck d = recvNonZero d"

definition sendAck :: "port \<Rightarrow> byte \<Rightarrow> port \<times> unit result" where
  "sendAck d ack =
     (let buf = [ack]; w = fst (port_Write d buf); d1 = snd (port_Write d buf) in
      if wr_err w \<noteq> None then (d1, Err (the (wr_err w)))
      else if wr_n w \<noteq> 1 then (d1, Err ErrSerial)
      else (d1, Ok ()))"

section \<open>Packet abstraction layer (ccboot.go, lines 168-235)\<close>

text \<open>\<open>SendPacket\<close>: the loop of lines 169-193, with \<open>attempt\<close> as an argument.\<close>

function SendPacket_loop :: "port \<Rightarrow> byte list \<Rightarrow> int \<Rightarrow> (port \<times> unit result) option" where
  "SendPacket_loop d pkt attempt =
     (if attempt < numAttempts then
        let w = fst (port_Write d pkt); d1 = snd (port_Write d pkt) in
        if wr_err w \<noteq> None then Some (d1, Err (the (wr_err w)))
        else if wr_n w \<noteq> int (length pkt) then Some (d1, Err ErrSerial)
        else
          (case recvAck d1 of
             None \<Rightarrow> None
           | Some (d2, Err e) \<Rightarrow>
               if e = ErrDeviceTimeout then SendPacket_loop d2 pkt (attempt + 1)
               else Some (d2, Err e)
           | Some (d2, Panic) \<Rightarrow> Some (d2, Panic)
           | Some (d2, Ok ack) \<Rightarrow>
               if ack = CC_ACK then Some (d2, Ok ())
               else SendPacket_loop d2 pkt (attempt + 1))
      else Some (d, Err ErrDevice))"
  by pat_completeness auto
termination
  by (relation "measure (\<lambda>(d, pkt, attempt). nat (numAttempts - attempt))") auto

declare SendPacket_loop.simps [simp del]

definition SendPacket :: "port \<Rightarrow> byte list \<Rightarrow> (port \<times> unit result) option" where
  "SendPacket d pkt = SendPacket_loop d pkt 0"

text \<open>
  \<open>RecvPacket\<close>, lines 208-215: the loop that fills \<open>pkt[count]\<close> for
  \<open>count = 1 .. size - 1\<close> from \<open>recvByte\<close>. Writing outside the slice panics.
\<close>

function RecvPacket_fill :: "port \<Rightarrow> byte list \<Rightarrow> int \<Rightarrow> int \<Rightarrow> port \<times> byte list result" where
  "RecvPacket_fill d pkt count sz =
     (if count < sz then
        (case recvByte d of
           (d1, Err e) \<Rightarrow> (d1, Err e)
         | (d1, Panic) \<Rightarrow> (d1, Panic)
         | (d1, Ok b) \<Rightarrow>
             if 0 \<le> count \<and> nat count < length pkt
             then RecvPacket_fill d1 (pkt[nat count := b]) (count + 1) sz
             else (d1, Panic))
      else (d, Ok pkt))"
  by pat_completeness auto
termination
  by (relation "measure (\<lambda>(d, pkt, count, sz). nat (sz - count))") auto

declare RecvPacket_fill.simps [simp del]

text \<open>
  \<open>RecvPacket\<close>, lines 201-215: one frame as it is assembled in one round of the loop:
  the size byte from \<open>recvNonZero\<close>, a slice of that length with \<open>pkt[0] = size\<close>, and
  the remaining bytes.
\<close>

definition RecvPacket_frame :: "port \<Rightarrow> (port \<times> byte list result) option" where
  "RecvPacket_frame d =
     (case recvNonZero d of
        None \<Rightarrow> None
      | Some (d1, Err e) \<Rightarrow> Some (d1, Err e)
      | Some (d1, Panic) \<Rightarrow> Some (d1, Panic)
      | Some (d1, Ok sz) \<Rightarrow>
          let pkt = replicate (nat (uint sz)) (0 :: byte) in
          if length pkt = 0 then Some (d1, Panic)
          else Some (RecvPacket_fill d1 (pkt[0 := sz]) 1 (uint sz)))"

text \<open>\<open>RecvPacket\<close>: the loop of lines 200-232, with \<open>attempt\<close> as an argument.\<close>

function RecvPacket_loop :: "port \<Rightarrow> int \<Rightarrow> (port \<times> byte list result) option" where
  "RecvPacket_loop d attempt =
     (if attempt < numAttempts then
        (case RecvPacket_frame d of
           None \<Rightarrow> None
         | Some (d1, Err e) \<Rightarrow> Some (d1, Err e)
         | Some (d1, Panic) \<Rightarrow> Some (d1, Panic)
         | Some (d1, Ok pkt) \<Rightarrow>
             (case decodePacket pkt of
                Ok data \<Rightarrow>
                  (case sendAck d1 CC_ACK of
                     (d2, Ok u) \<Rightarrow> Some (d2, Ok data)
                   | (d2, Err e) \<Rightarrow> Some (d2, Err e)
                   | (d2, Panic) \<Rightarrow> Some (d2, Panic))
              | Panic \<Rightarrow> Some (d1, Panic)
              | Err e \<Rightarrow>
                  (case sendAck d1 CC_NACK of
                     (d2, Ok u) \<Rightarrow> RecvPacket_loop d2 (attempt + 1)
                   | (d2, Err e') \<Rightarrow> Some (d2, Err e')
                   | (d2, Panic) \<Rightarrow> Some (d2, Panic))))
      else Some (d, Err ErrDevice))"
  by pat_completeness auto
termination
  by (relation "measure (\<lambda>(d, attempt). nat (numAttempts - attempt))") auto

declare RecvPacket_loop.simps [simp del]

definition RecvPacket :: "port \<Rightarrow> (port \<times> byte list result) option" where
  "RecvPacket d = RecvPacket_loop d 0"

section \<open>High level commands (ccboot.go, lines 241-438)\<close>

definition GetStatus :: "port \<Rightarrow> (port \<times> byte result) option" where
  "GetStatus d =
     (case SendPacket d (encodeCmdPacket COMMAND_GET_STATUS []) of
        None \<Rightarrow> None
      | Some (d1, Err e) \<Rightarrow> Some (d1, Err e)
      | Some (d1, Panic) \<Rightarrow> Some (d1, Panic)
      | Some (d1, Ok u) \<Rightarrow>
          (case RecvPacket d1 of
             None \<Rightarrow> None
           | Some (d2, Err e) \<Rightarrow> Some (d2, Err e)
           | Some (d2, Panic) \<Rightarrow> Some (d2, Panic)
           | Some (d2, Ok data) \<Rightarrow>
               if int (length data) \<noteq> 1 then Some (d2, Err ErrDevice)
               else Some (d2, Ok (data ! 0))))"

definition GetChipID :: "port \<Rightarrow> (port \<times> uint32 result) option" where
  "GetChipID d =
     (case SendPacket d (encodeCmdPacket COMMAND_GET_CHIP_ID []) of
        None \<Rightarrow> None
      | Some (d1, Err e) \<Rightarrow> Some (d1, Err e)
      | Some (d1, Panic) \<Rightarrow> Some (d1, Panic)
      | Some (d1, Ok u) \<Rightarrow>
          (case RecvPacket d1 of
             None \<Rightarrow> None
           | Some (d2, Err e) \<Rightarrow> Some (d2, Err e)
           | Some (d2, Panic) \<Rightarrow> Some (d2, Panic)
           | Some (d2, Ok data) \<Rightarrow>
               if int (length data) \<noteq> 4 then Some (d2, Err ErrDevice)
               else
                 let id = (0 :: uint32);
                     id = id OR push_bit (3 * 8) (ucast (data ! 0));
                     id = id OR push_bit (2 * 8) (ucast (data ! 1));
                     id = id OR push_bit (1 * 8) (ucast (data ! 2));
                     id = id OR push_bit (0 * 8) (ucast (data ! 3))
                 in Some (d2, Ok id)))"

text \<open>
  \<open>CRC32\<close> reads \<open>data[0]\<close> to \<open>data[3]\<close> of the reply with no check of its
  length: each read outside the slice panics.
\<close>

definition CRC32 :: "port \<Rightarrow> uint32 \<Rightarrow> uint32 \<Rightarrow> uint32 \<Rightarrow> (port \<times> uint32 result) option" where
  "CRC32 d address sz rcount =
     (let data = bytes_of_uint32 address @ bytes_of_uint32 sz @ bytes_of_uint32 rcount in
      case SendPacket d (encodeCmdPacket COMMAND_CRC32 data) of
        None \<Rightarrow> None
      | Some (d1, Err e) \<Rightarrow> Some (d1, Err e)
      | Some (d1, Panic) \<Rightarrow> Some (d1, Panic)
      | Some (d1, Ok u) \<Rightarrow>
          (case RecvPacket d1 of
             None \<Rightarrow> None
           | Some (d2, Err e) \<Rightarrow> Some (d2, Err e)
           | Some (d2, Panic) \<Rightarrow> Some (d2, Panic)
           | Some (d2, Ok data) \<Rightarrow>
               if \<not> 0 < length data then Some (d2, Panic)
               else if \<not> 1 < length data then Some (d2, Panic)
               else if \<not> 2 < length data then Some (d2, Panic)
               else if \<not> 3 < length data then Some (d2, Panic)
               else
                 let crc = (0 :: uint32);
                     crc = crc OR push_bit (3 * 8) (ucast (data ! 0));
                     crc = crc OR push_bit (2 * 8) (ucast (data ! 1));
                     crc = crc OR push_bit (1 * 8) (ucast (data ! 2));
                     crc = crc OR push_bit (0 * 8) (ucast (data ! 3))
                 in Some (d2, Ok crc)))"

definition MemoryRead ::
  "port \<Rightarrow> uint32 \<Rightarrow> ReadWriteType \<Rightarrow> byte \<Rightarrow> (port \<times> byte list result) option" where
  "MemoryRead d address typ count =
     (if typ = ReadWriteType8Bit \<and> count > ReadMaxCount8Bit then Some (d, Err ErrBadArguments)
      else if typ = ReadWriteType32Bit \<and> count > ReadMaxCount32Bit
        then Some (d, Err ErrBadArguments)
      else
        let data = bytes_of_uint32 address @ [typ, count] in
        case SendPacket d (encodeCmdPacket COMMAND_MEMORY_READ data) of
          None \<Rightarrow> None
        | Some (d1, Err e) \<Rightarrow> Some (d1, Err e)
        | Some (d1, Panic) \<Rightarrow> Some (d1, Panic)
        | Some (d1, Ok u) \<Rightarrow> RecvPacket d1)"

text \<open>
  \<open>MemoryWrite\<close>, lines 403-405: a 32-bit write of a length that is not a multiple of
  four is reported with \<open>log.Printf\<close> only. The log is not part of the port, and the
  call goes on; \<open>MemoryWrite_logs\<close> is the condition of that report.
\<close>

definition MemoryWrite_logs :: "ReadWriteType \<Rightarrow> byte list \<Rightarrow> bool" where
  "MemoryWrite_logs typ data = (typ = ReadWriteType32Bit \<and> int (length data) mod 4 \<noteq> 0)"

definition MemoryWrite ::
  "port \<Rightarrow> uint32 \<Rightarrow> ReadWriteType \<Rightarrow> byte list \<Rightarrow> (port \<times> unit result) option" where
  "MemoryWrite d address typ data =
     (if typ = ReadWriteType8Bit \<and> (word_of_int (int (length data)) :: byte) > WriteMaxCount8Bit
        then Some (d, Err ErrBadArguments)
      else if typ = ReadWriteType32Bit
          \<and> (word_of_int (int (length data)) :: byte) > WriteMaxCount32Bit
        then Some (d, Err ErrBadArguments)
      else
        let buf = bytes_of_uint32 address @ [typ];
            buf = buf @ data
        in SendPacket d (encodeCmdPacket COMMAND_MEMORY_WRITE buf))"

text \<open>\<open>SetCCFG\<close>, line 433: the packet is built with \<open>COMMAND_CRC32\<close>.\<close>

definition SetCCFG :: "port \<Rightarrow> CCFG_FieldID \<Rightarrow> uint32 \<Rightarrow> (port \<times> unit result) option" where
  "SetCCFG d fid val =
     (let data = bytes_of_uint32 fid @ bytes_of_uint32 val in
      SendPacket d (encodeCmdPacket COMMAND_CRC32 data))"

section \<open>Notions used in the statements\<close>

text \<open>
  The three kinds of outcome of one read in \<open>recvNonZero\<close>: an empty read (no error,
  \<open>n = 0\<close>), a delivered zero byte (no error, \<open>n = 1\<close>, \<open>buf[0] = 0x00\<close>), and a read
  that ends the loop with the result \<open>res\<close>: a transport error, a nonzero byte, or a
  count that is neither 0 nor 1.
\<close>

definition is_empty_read :: "read_result \<Rightarrow> bool" where
  "is_empty_read r = (rd_err r = None \<and> rd_n r = 0)"

definition is_zero_byte :: "read_result \<Rightarrow> bool" where
  "is_zero_byte r = (rd_err r = None \<and> rd_n r = 1 \<and> rd_buf0 r = 0x00)"

definition recv_ends :: "read_result \<Rightarrow> byte result \<Rightarrow> bool" where
  "recv_ends r res =
     (if rd_err r \<noteq> None then res = Err (the (rd_err r))
      else if rd_n r = 1 then rd_buf0 r \<noteq> 0x00 \<and> res = Ok (rd_buf0 r)
      else rd_n r \<noteq> 0 \<and> res = Err ErrSerial)"

text \<open>The port after \<open>k\<close> more reads, and after one more write of \<open>buf\<close>.\<close>

definition skip :: "port \<Rightarrow> nat \<Rightarrow> port" where
  "skip d k = d\<lparr>rd_pos := rd_pos d + k\<rparr>"

definition wrote :: "port \<Rightarrow> byte list \<Rightarrow> port" where
  "wrote d buf = d\<lparr>written := written d @ [buf]\<rparr>"

text \<open>The number of empty reads among the next \<open>k\<close> reads of the port.\<close>

definition empty_reads :: "port \<Rightarrow> nat \<Rightarrow> nat" where
  "empty_reads d k =
     length (filter is_empty_read (map (rd_script d) [rd_pos d ..< rd_pos d + k]))"

text \<open>
  How a run of the loop of \<open>recvNonZero\<close> that started with the counter \<open>a\<close> and made
  \<open>k\<close> reads can have returned \<open>y\<close>: its last read ended the loop, or it timed out
  with the counter above \<open>numAttempts\<close>.
\<close>

definition recv_post :: "port \<Rightarrow> int \<Rightarrow> port \<times> byte result \<Rightarrow> nat \<Rightarrow> bool" where
  "recv_post d a y k =
     (fst y = skip d k \<and>
      ((0 < k \<and> recv_ends (rd_script d (rd_pos d + k - 1)) (snd y))
       \<or> (snd y = Err ErrDeviceTimeout \<and> numAttempts < a + int (empty_reads d k))))"

text \<open>
  A fresh port on a read script, with writes that succeed; the script of \<open>n\<close> zero
  bytes followed by the byte \<open>b\<close> for ever; the script of the bytes of a list followed
  by empty reads for ever.
\<close>

definition new_port :: "(nat \<Rightarrow> read_result) \<Rightarrow> port" where
  "new_port s = \<lparr>rd_script = s, rd_pos = 0, wr_script = wr_ok, written = []\<rparr>"

definition zeros_then :: "nat \<Rightarrow> byte \<Rightarrow> nat \<Rightarrow> read_result" where
  "zeros_then n b i = (if i < n then read_byte 0x00 else read_byte b)"

definition bytes_then_silence :: "byte list \<Rightarrow> nat \<Rightarrow> read_result" where
  "bytes_then_silence bs i = (if i < length bs then read_byte (bs ! i) else read_timeout)"

text \<open>
  An outcome of the acknowledgment read after which \<open>SendPacket\<close> sends the frame
  again: a byte other than \<open>CC_ACK\<close>, or the timeout of the read.
\<close>

definition ack_resend :: "byte result \<Rightarrow> bool" where
  "ack_resend r = (case r of Ok ack \<Rightarrow> ack \<noteq> CC_ACK | Err e \<Rightarrow> e = ErrDeviceTimeout | Panic \<Rightarrow> False)"

text \<open>The next reads of the port deliver the bytes \<open>bs\<close>, one byte a read.\<close>

fun reads_bytes :: "port \<Rightarrow> byte list \<Rightarrow> bool" where
  "reads_bytes d [] = True"
| "reads_bytes d (b # bs) =
     (rd_script d (rd_pos d) = read_byte b \<and> reads_bytes (skip d 1) bs)"

definition is_Ok :: "'a result \<Rightarrow> bool" where
  "is_Ok r = (case r of Ok x \<Rightarrow> True | Err e \<Rightarrow> False | Panic \<Rightarrow> False)"

section \<open>The packet codec\<close>

lemma fold_add_word: "fold (\<lambda>b s. s + b) data (a :: byte) = a + sum_list data"
  by (induction data arbitrary: a) (simp_all add: add.assoc)

lemma unat_sum_list_byte:
  "unat (sum_list (data :: byte list)) = sum_list (map unat data) mod 256"
proof (induction data)
  case Nil
  show ?case by simp
next
  case (Cons b data)
  have "unat (b + sum_list data) = (unat b + unat (sum_list data)) mod 256"
    by (simp add: unat_word_ariths)
  also have "\<dots> = (unat b + sum_list (map unat data) mod 256) mod 256"
    by (simp add: Cons.IH)
  also have "\<dots> = (unat b + sum_list (map unat data)) mod 256"
    by (simp add: mod_add_right_eq)
  finally show ?case by simp
qed

lemma checksum_sum: "unat (checksum data) = sum_list (map unat data) mod 256"
  by (simp add: checksum_def fold_add_word unat_sum_list_byte)

lemma and_255_int: "(k :: int) AND 0xFF = k mod 256"
proof -
  have "(mask 8 :: int) = 0xFF" by (simp add: mask_eq_exp_minus_1)
  then have "k AND 0xFF = take_bit 8 k" by (simp add: take_bit_eq_mask)
  then show ?thesis by (simp add: take_bit_eq_mod)
qed

lemma encodeSize_nat: "unat (encodeSize (int n)) = n mod 256"
proof -
  have "unat (word_of_int (int n mod 256) :: byte) = n mod 256"
  proof -
    have "int n mod 256 = int (n mod 256)"
      by (simp add: zmod_int)
    then have "(word_of_int (int n mod 256) :: byte) = of_nat (n mod 256)"
      by (simp only: of_int_of_nat_eq)
    then show ?thesis by (simp add: unat_of_nat)
  qed
  then show ?thesis by (simp add: encodeSize_def and_255_int)
qed

lemma copy_at_fits: "length buf = k + length src \<Longrightarrow> copy_at buf k src = take k buf @ src"
  by (simp add: copy_at_def)

lemma encodePacket_eq:
  "encodePacket data = encodeSize (2 + int (length data)) # checksum data # data"
proof -
  have n: "nat (2 + int (length data)) = Suc (Suc (length data))" by simp
  show ?thesis
    by (simp add: encodePacket_def Let_def n copy_at_fits)
qed

lemma Marshal_eq: "Marshal c = Type c # Parameters c"
proof -
  have n: "nat (1 + int (length (Parameters c))) = Suc (length (Parameters c))" by simp
  show ?thesis
    by (simp add: Marshal_def Let_def n copy_at_fits)
qed

lemma encodeCmdPacket_eq:
  "encodeCmdPacket cmd ps =
     encodeSize (3 + int (length ps)) # checksum (cmd # ps) # cmd # ps"
  by (simp add: encodeCmdPacket_def Marshal_eq encodePacket_eq)

text \<open>
  C1, as the code has it: for every payload \<open>P\<close> with \<open>1 \<le> len(P) \<le> 253\<close>, decoding
  the encoded frame succeeds and returns exactly \<open>P\<close>. (The frame of the empty payload
  has two bytes, and \<open>decodePacket\<close> refuses every frame of fewer than three.)
\<close>

theorem decodePacket_encodePacket:
  "1 \<le> length P \<Longrightarrow> length P \<le> 253 \<Longrightarrow> decodePacket (encodePacket P) = Ok P"
  by (cases P) (simp_all add: decodePacket_def encodePacket_eq)

text \<open>C1 at the one-byte payload \<open>[0x28]\<close>.\<close>

theorem decodePacket_encodePacket_witness:
  "1 \<le> length [0x28 :: byte] \<and> length [0x28 :: byte] \<le> 253
   \<and> decodePacket (encodePacket [0x28]) = Ok [0x28]"
  using decodePacket_encodePacket [of "[0x28]"] by simp

text \<open>
  C1 as stated fails at the empty payload: its length is at most 253, its frame is
  \<open>[0x02, 0x00]\<close>, and decoding that frame fails with \<open>ErrBadPacket\<close>.
\<close>

theorem decodePacket_encodePacket_empty:
  "length ([] :: byte list) \<le> 253
   \<and> encodePacket [] = [0x02, 0x00]
   \<and> decodePacket (encodePacket []) = Err ErrBadPacket
   \<and> decodePacket (encodePacket []) \<noteq> Ok []"
  by (simp add: decodePacket_def encodePacket_eq encodeSize_def checksum_def)

text \<open>
  C2: for every byte sequence \<open>frame\<close>, \<open>decodePacket\<close> fails with \<open>ErrBadPacket\<close> if
  and only if \<open>len(frame) < 3\<close>, or \<open>frame[0]\<close> is not \<open>len(frame) mod 256\<close>, or
  \<open>frame[1]\<close> is not the sum of the bytes of \<open>frame[2:]\<close> modulo 256; in every other
  case it succeeds and returns \<open>frame[2:]\<close> unchanged.
\<close>

theorem decodePacket_iff:
  "(decodePacket frame = Err ErrBadPacket \<longleftrightarrow>
      length frame < 3
      \<or> unat (frame ! 0) \<noteq> length frame mod 256
      \<or> unat (frame ! 1) \<noteq> sum_list (map unat (drop 2 frame)) mod 256)
   \<and> (\<not> (length frame < 3
      \<or> unat (frame ! 0) \<noteq> length frame mod 256
      \<or> unat (frame ! 1) \<noteq> sum_list (map unat (drop 2 frame)) mod 256)
      \<longrightarrow> decodePacket frame = Ok (drop 2 frame))"
proof -
  have a: "encodeSize (int (length frame)) \<noteq> frame ! 0
           \<longleftrightarrow> unat (frame ! 0) \<noteq> length frame mod 256"
    using encodeSize_nat [of "length frame"] by (metis word_unat_eq_iff)
  have b: "checksum (drop 2 frame) \<noteq> frame ! 1
           \<longleftrightarrow> unat (frame ! 1) \<noteq> sum_list (map unat (drop 2 frame)) mod 256"
    using checksum_sum [of "drop 2 frame"] by (metis word_unat_eq_iff)
  show ?thesis
    unfolding decodePacket_def a b by simp
qed

text \<open>
  C2 at the frame \<open>[0x03, 0x28, 0x28]\<close>, which passes the three checks, and at the frame
  \<open>[0x05, 0x00, 0x28, 0x00, 0x00]\<close>, whose checksum byte is wrong.
\<close>

theorem decodePacket_iff_witness:
  "\<not> (length [0x03, 0x28, 0x28 :: byte] < 3
      \<or> unat ([0x03, 0x28, 0x28 :: byte] ! 0) \<noteq> length [0x03, 0x28, 0x28 :: byte] mod 256
      \<or> unat ([0x03, 0x28, 0x28 :: byte] ! 1)
          \<noteq> sum_list (map unat (drop 2 [0x03, 0x28, 0x28 :: byte])) mod 256)
   \<and> decodePacket [0x03, 0x28, 0x28] = Ok [0x28]
   \<and> decodePacket [0x05, 0x00, 0x28, 0x00, 0x00] = Err ErrBadPacket"
  using decodePacket_iff [of "[0x03, 0x28, 0x28]"]
    decodePacket_iff [of "[0x05, 0x00, 0x28, 0x00, 0x00]"]
  by simp

section \<open>Receiving a nonzero byte\<close>

lemma skip_simps [simp]:
  "rd_pos (skip d k) = rd_pos d + k" "rd_script (skip d k) = rd_script d"
  "wr_script (skip d k) = wr_script d" "written (skip d k) = written d"
  "skip (skip d j) k = skip d (j + k)" "skip d 0 = d"
  by (simp_all add: skip_def add.assoc)

lemma port_Read_skip: "port_Read d = (rd_script d (rd_pos d), skip d 1)"
  by (simp add: port_Read_def skip_def)

lemma recv_step_empty:
  "a \<le> numAttempts \<Longrightarrow> is_empty_read (rd_script d (rd_pos d)) \<Longrightarrow>
   recvNonZero_loop d a = recvNonZero_loop (skip d 1) (a + 1)"
  by (subst recvNonZero_loop.simps) (simp add: port_Read_skip is_empty_read_def)

lemma recv_step_zero:
  "a \<le> numAttempts \<Longrightarrow> is_zero_byte (rd_script d (rd_pos d)) \<Longrightarrow>
   recvNonZero_loop d a = recvNonZero_loop (skip d 1) a"
  by (subst recvNonZero_loop.simps) (simp add: port_Read_skip is_zero_byte_def)

lemma recv_step_ends:
  "a \<le> numAttempts \<Longrightarrow> recv_ends (rd_script d (rd_pos d)) res \<Longrightarrow>
   recvNonZero_loop d a = Some (skip d 1, res)"
  by (subst recvNonZero_loop.simps)
    (auto simp add: port_Read_skip recv_ends_def split: if_splits)

lemma recv_step_timeout:
  "numAttempts < a \<Longrightarrow> recvNonZero_loop d a = Some (d, Err ErrDeviceTimeout)"
  by (subst recvNonZero_loop.simps) simp

lemma read_cases:
  "is_empty_read r \<or> is_zero_byte r \<or> (\<exists>res. recv_ends r res)"
proof (cases "rd_err r")
  case (Some e)
  then have "recv_ends r (Err e)" by (simp add: recv_ends_def)
  then show ?thesis by blast
next
  case None
  show ?thesis
  proof (cases "rd_n r = 0")
    case True
    with None show ?thesis by (simp add: is_empty_read_def)
  next
    case n0: False
    show ?thesis
    proof (cases "rd_n r = 1")
      case False
      with n0 None have "recv_ends r (Err ErrSerial)" by (simp add: recv_ends_def)
      then show ?thesis by blast
    next
      case n1: True
      show ?thesis
      proof (cases "rd_buf0 r = 0")
        case True
        with n1 None show ?thesis by (simp add: is_zero_byte_def)
      next
        case False
        with n1 None have "recv_ends r (Ok (rd_buf0 r))" by (simp add: recv_ends_def)
        then show ?thesis by blast
      qed
    qed
  qed
qed

lemma empty_reads_0 [simp]: "empty_reads d 0 = 0"
  by (simp add: empty_reads_def)

lemma empty_reads_Suc:
  "empty_reads d (Suc k) =
     (if is_empty_read (rd_script d (rd_pos d)) then 1 else 0) + empty_reads (skip d 1) k"
proof -
  have "[rd_pos d ..< rd_pos d + Suc k] = rd_pos d # [rd_pos d + 1 ..< rd_pos d + 1 + k]"
    by (simp add: upt_conv_Cons)
  then show ?thesis by (simp add: empty_reads_def)
qed

lemma recv_post_empty:
  "is_empty_read (rd_script d (rd_pos d)) \<Longrightarrow> recv_post (skip d 1) (a + 1) y k \<Longrightarrow>
   recv_post d a y (Suc k)"
  by (auto simp add: recv_post_def empty_reads_Suc)

lemma recv_post_zero:
  "is_zero_byte (rd_script d (rd_pos d)) \<Longrightarrow> recv_post (skip d 1) a y k \<Longrightarrow>
   recv_post d a y (Suc k)"
  by (auto simp add: recv_post_def empty_reads_Suc is_zero_byte_def is_empty_read_def)

lemma zeros_then_end:
  "a \<le> numAttempts \<Longrightarrow> (\<forall>i<n. is_zero_byte (rd_script d (rd_pos d + i))) \<Longrightarrow>
   recv_ends (rd_script d (rd_pos d + n)) res \<Longrightarrow>
   recvNonZero_loop d a = Some (skip d (n + 1), res)"
proof (induction n arbitrary: d)
  case 0
  then show ?case by (simp add: recv_step_ends)
next
  case (Suc n)
  have z: "is_zero_byte (rd_script d (rd_pos d))" using Suc.prems(2) by force
  have "recvNonZero_loop (skip d 1) a = Some (skip (skip d 1) (n + 1), res)"
  proof (rule Suc.IH)
    show "a \<le> numAttempts" by (rule Suc.prems(1))
    show "\<forall>i<n. is_zero_byte (rd_script (skip d 1) (rd_pos (skip d 1) + i))"
      using Suc.prems(2) by (auto dest: spec [of _ "Suc _"])
    show "recv_ends (rd_script (skip d 1) (rd_pos (skip d 1) + n)) res"
      using Suc.prems(3) by simp
  qed
  then show ?case
    by (simp add: recv_step_zero [OF Suc.prems(1) z] add.commute)
qed

lemma recv_returns:
  assumes "recvNonZero_loop d a = Some y"
  shows "\<exists>k. recv_post d a y k"
proof (rule recvNonZero_loop.raw_induct [OF _ assms], goal_cases)
  case (1 f d a y)
  show ?case
  proof (cases "numAttempts < a")
    case True
    with 1(2) have "y = (d, Err ErrDeviceTimeout)" by simp
    with True have "recv_post d a y 0" by (simp add: recv_post_def)
    then show ?thesis ..
  next
    case False
    let ?r = "rd_script d (rd_pos d)"
    from read_cases [of ?r] consider
      (empty) "is_empty_read ?r" | (zero) "is_zero_byte ?r" | (ends) res where "recv_ends ?r res"
      by blast
    then show ?thesis
    proof cases
      case empty
      with False 1(2) have "f (skip d 1) (a + 1) = Some y"
        by (simp add: port_Read_skip is_empty_read_def)
      from 1(1) [OF this] obtain k where "recv_post (skip d 1) (a + 1) y k" ..
      from recv_post_empty [OF empty this] show ?thesis ..
    next
      case zero
      with False 1(2) have "f (skip d 1) a = Some y"
        by (simp add: port_Read_skip is_zero_byte_def)
      from 1(1) [OF this] obtain k where "recv_post (skip d 1) a y k" ..
      from recv_post_zero [OF zero this] show ?thesis ..
    next
      case ends
      with False 1(2) have "y = (skip d 1, res)"
        by (auto simp add: port_Read_skip recv_ends_def split: if_splits)
      with ends have "recv_post d a y 1" by (simp add: recv_post_def)
      then show ?thesis ..
    qed
  qed
qed

lemma all_zero_diverges:
  assumes a: "a \<le> numAttempts" and z: "\<forall>i\<ge>rd_pos d. is_zero_byte (rd_script d i)"
  shows "recvNonZero_loop d a = None"
proof (rule ccontr)
  assume "recvNonZero_loop d a \<noteq> None"
  then obtain y where y: "recvNonZero_loop d a = Some y" by auto
  from recv_returns [OF y] obtain k where k:
    "(0 < k \<and> recv_ends (rd_script d (rd_pos d + k - 1)) (snd y))
      \<or> (snd y = Err ErrDeviceTimeout \<and> numAttempts < a + int (empty_reads d k))"
    unfolding recv_post_def by blast
  have nz: "\<And>i res. rd_pos d \<le> i \<Longrightarrow> \<not> recv_ends (rd_script d i) res"
    using z by (auto simp add: is_zero_byte_def recv_ends_def)
  have ne: "\<And>i. rd_pos d \<le> i \<Longrightarrow> \<not> is_empty_read (rd_script d i)"
    using z by (auto simp add: is_zero_byte_def is_empty_read_def)
  have "empty_reads d k = 0"
    by (auto simp add: empty_reads_def filter_empty_conv ne)
  with k a nz [of "rd_pos d + k - 1"] show False by auto
qed

text \<open>
  C10: in \<open>recvNonZero\<close> only empty reads use up the timeout budget. A read that delivers
  a zero byte is dropped and leaves the counter as it is, an empty read counts it up. For
  every \<open>n\<close>, on the stream of \<open>n\<close> zero bytes followed by a nonzero byte \<open>b\<close> the
  call makes \<open>n + 1\<close> reads and returns \<open>b\<close>. On a stream that delivers zero bytes for
  ever the call does not return, so it never reports a timeout. And whenever the call
  returns, after \<open>k\<close> reads, then either its last read ended the loop (a transport
  error, a nonzero byte, or a count other than 0 and 1, which the code reports as
  \<open>ErrSerial\<close>), or the result is \<open>ErrDeviceTimeout\<close> and more than \<open>numAttempts\<close>
  of the \<open>k\<close> reads were empty.
\<close>

theorem recvNonZero_budget:
  "(\<forall>a. a \<le> numAttempts \<longrightarrow> is_zero_byte (rd_script d (rd_pos d)) \<longrightarrow>
        recvNonZero_loop d a = recvNonZero_loop (skip d 1) a)
   \<and> (\<forall>a. a \<le> numAttempts \<longrightarrow> is_empty_read (rd_script d (rd_pos d)) \<longrightarrow>
        recvNonZero_loop d a = recvNonZero_loop (skip d 1) (a + 1))
   \<and> (\<forall>n b. b \<noteq> 0x00 \<longrightarrow>
        recvNonZero (new_port (zeros_then n b))
          = Some (skip (new_port (zeros_then n b)) (n + 1), Ok b))
   \<and> ((\<forall>i\<ge>rd_pos d. rd_script d i = read_byte 0x00) \<longrightarrow> recvNonZero d = None)
   \<and> (\<forall>y. recvNonZero d = Some y \<longrightarrow>
        (\<exists>k. fst y = skip d k \<and>
           ((0 < k \<and> recv_ends (rd_script d (rd_pos d + k - 1)) (snd y))
            \<or> (snd y = Err ErrDeviceTimeout \<and> numAttempts < int (empty_reads d k)))))"
proof (intro conjI allI impI)
  fix a
  assume "a \<le> numAttempts" "is_zero_byte (rd_script d (rd_pos d))"
  then show "recvNonZero_loop d a = recvNonZero_loop (skip d 1) a"
    by (rule recv_step_zero)
next
  fix a
  assume "a \<le> numAttempts" "is_empty_read (rd_script d (rd_pos d))"
  then show "recvNonZero_loop d a = recvNonZero_loop (skip d 1) (a + 1)"
    by (rule recv_step_empty)
next
  fix n and b :: byte
  assume b: "b \<noteq> 0x00"
  let ?d = "new_port (zeros_then n b)"
  have "recvNonZero_loop ?d 0 = Some (skip ?d (n + 1), Ok b)"
  proof (rule zeros_then_end)
    show "0 \<le> numAttempts" by (simp add: numAttempts_def)
    show "\<forall>i<n. is_zero_byte (rd_script ?d (rd_pos ?d + i))"
      by (simp add: new_port_def zeros_then_def is_zero_byte_def read_byte_def)
    show "recv_ends (rd_script ?d (rd_pos ?d + n)) (Ok b)"
      using b by (simp add: new_port_def zeros_then_def recv_ends_def read_byte_def)
  qed
  then show "recvNonZero ?d = Some (skip ?d (n + 1), Ok b)"
    by (simp add: recvNonZero_def)
next
  assume "\<forall>i\<ge>rd_pos d. rd_script d i = read_byte 0x00"
  then have "\<forall>i\<ge>rd_pos d. is_zero_byte (rd_script d i)"
    by (simp add: is_zero_byte_def read_byte_def)
  then have "recvNonZero_loop d 0 = None"
    by (intro all_zero_diverges) (simp_all add: numAttempts_def)
  then show "recvNonZero d = None"
    by (simp add: recvNonZero_def)
next
  fix y
  assume "recvNonZero d = Some y"
  then have "recvNonZero_loop d 0 = Some y" by (simp add: recvNonZero_def)
  from recv_returns [OF this] obtain k where "recv_post d 0 y k" ..
  then show "\<exists>k. fst y = skip d k \<and>
           ((0 < k \<and> recv_ends (rd_script d (rd_pos d + k - 1)) (snd y))
            \<or> (snd y = Err ErrDeviceTimeout \<and> numAttempts < int (empty_reads d k)))"
    by (auto simp add: recv_post_def)
qed

text \<open>
  C10 on two streams: two zero bytes and then \<open>0x33\<close> for ever (three reads, the result
  is \<open>0x33\<close>), and zero bytes for ever (no result).
\<close>

theorem recvNonZero_budget_witness:
  "recvNonZero (new_port (zeros_then 2 0x33)) = Some (skip (new_port (zeros_then 2 0x33)) 3, Ok 0x33)
   \<and> rd_pos (skip (new_port (zeros_then 2 0x33)) 3) = 3
   \<and> recvNonZero (new_port (zeros_then 0 0x00)) = None"
proof -
  have 1: "recvNonZero (new_port (zeros_then 2 0x33)) = Some (skip (new_port (zeros_then 2 0x33)) 3, Ok 0x33)"
    using recvNonZero_budget [THEN conjunct2, THEN conjunct2, THEN conjunct1, rule_format, of "0x33" 2]
    by simp
  have "\<forall>i\<ge>rd_pos (new_port (zeros_then 0 0x00)). rd_script (new_port (zeros_then 0 0x00)) i = read_byte 0x00"
    by (simp add: new_port_def zeros_then_def)
  then have 2: "recvNonZero (new_port (zeros_then 0 0x00)) = None"
    using recvNonZero_budget [of "new_port (zeros_then 0 0x00)"] by blast
  show ?thesis using 1 2 by (simp add: new_port_def)
qed

section \<open>Sending and receiving packets\<close>


lemma wrote_simps [simp]:
  "rd_pos (wrote d buf) = rd_pos d" "rd_script (wrote d buf) = rd_script d"
  "wr_script (wrote d buf) = wr_script d" "written (wrote d buf) = written d @ [buf]"
  by (simp_all add: wrote_def)

lemma writes_ok_simps [simp]:
  "writes_ok (skip d k) = writes_ok d" "writes_ok (wrote d buf) = writes_ok d"
  by (simp_all add: writes_ok_def)

lemma port_Write_wrote: "port_Write d buf = (wr_script d (length (written d)) buf, wrote d buf)"
  by (simp add: port_Write_def wrote_def)

lemma port_Write_ok:
  "writes_ok d \<Longrightarrow> port_Write d buf = (WriteResult (int (length buf)) None, wrote d buf)"
  by (simp add: port_Write_wrote writes_ok_def wr_ok_def)

lemma recvNonZero_skip:
  assumes "recvNonZero d = Some (d', r)"
  shows "\<exists>k. d' = skip d k"
proof -
  from assms have "recvNonZero_loop d 0 = Some (d', r)" by (simp add: recvNonZero_def)
  from recv_returns [OF this] show ?thesis by (auto simp add: recv_post_def)
qed

lemma recvAck_skip: "recvAck d = Some (d', r) \<Longrightarrow> \<exists>k. d' = skip d k"
  by (simp add: recvAck_def recvNonZero_skip)

lemma recvNonZero_not_Panic: "recvNonZero d = Some (d', r) \<Longrightarrow> r \<noteq> Panic"
proof -
  assume "recvNonZero d = Some (d', r)"
  then have "recvNonZero_loop d 0 = Some (d', r)" by (simp add: recvNonZero_def)
  from recv_returns [OF this] show ?thesis
    by (auto simp add: recv_post_def recv_ends_def split: if_splits)
qed

lemma SendPacket_loop_ack:
  "attempt < numAttempts \<Longrightarrow> writes_ok d \<Longrightarrow> recvAck (wrote d pkt) = Some (d1, Ok CC_ACK) \<Longrightarrow>
   SendPacket_loop d pkt attempt = Some (d1, Ok ())"
  by (subst SendPacket_loop.simps) (simp add: port_Write_ok)

lemma SendPacket_loop_resend:
  "attempt < numAttempts \<Longrightarrow> writes_ok d \<Longrightarrow> recvAck (wrote d pkt) = Some (d1, r) \<Longrightarrow>
   ack_resend r \<Longrightarrow>
   SendPacket_loop d pkt attempt = SendPacket_loop d1 pkt (attempt + 1)"
  by (subst SendPacket_loop.simps)
    (auto simp add: port_Write_ok ack_resend_def split: result.splits)

lemma SendPacket_loop_exhausted:
  "\<not> attempt < numAttempts \<Longrightarrow> SendPacket_loop d pkt attempt = Some (d, Err ErrDevice)"
  by (subst SendPacket_loop.simps) simp

lemma SendPacket_loop_step:
  assumes a: "a < numAttempts" and run: "SendPacket_loop d pkt a = Some (d', r)"
  shows "written d' = written d @ [pkt]
         \<or> (\<exists>d2. written d2 = written d @ [pkt] \<and> SendPacket_loop d2 pkt (a + 1) = Some (d', r))"
proof -
  let ?w = "fst (port_Write d pkt)"
  let ?d1 = "wrote d pkt"
  have d1: "snd (port_Write d pkt) = ?d1" by (simp add: port_Write_wrote)
  note body = run [unfolded SendPacket_loop.simps [of d pkt a], simplified a if_True Let_def d1]
  show ?thesis
  proof (cases "wr_err ?w \<noteq> None \<or> wr_n ?w \<noteq> int (length pkt)")
    case True
    with body have "d' = ?d1" by (auto split: if_splits)
    then show ?thesis by simp
  next
    case False
    with body obtain d2 res where ack: "recvAck ?d1 = Some (d2, res)"
      by (cases "recvAck ?d1") auto
    from recvAck_skip [OF ack] have w2: "written d2 = written d @ [pkt]" by auto
    from body False ack have
      "d' = d2 \<or> SendPacket_loop d2 pkt (a + 1) = Some (d', r)"
      by (cases res) (auto split: if_splits)
    with w2 show ?thesis by auto
  qed
qed

lemma SendPacket_loop_writes:
  "SendPacket_loop d pkt a = Some (d', r) \<Longrightarrow>
   \<exists>k. written d' = written d @ replicate k pkt \<and> int k \<le> max 0 (numAttempts - a)
       \<and> (a < numAttempts \<longrightarrow> 0 < k)"
proof (induction "nat (numAttempts - a)" arbitrary: a d)
  case 0
  then have "\<not> a < numAttempts" by simp
  with 0(2) have "d' = d" by (simp add: SendPacket_loop_exhausted)
  with \<open>\<not> a < numAttempts\<close> show ?case by (intro exI [of _ 0]) simp
next
  case (Suc n)
  then have a: "a < numAttempts" by simp
  from SendPacket_loop_step [OF a Suc.prems] show ?case
  proof
    assume "written d' = written d @ [pkt]"
    with a show ?thesis by (intro exI [of _ 1]) simp
  next
    assume "\<exists>d2. written d2 = written d @ [pkt] \<and> SendPacket_loop d2 pkt (a + 1) = Some (d', r)"
    then obtain d2 where w2: "written d2 = written d @ [pkt]"
      and run: "SendPacket_loop d2 pkt (a + 1) = Some (d', r)" by blast
    have "n = nat (numAttempts - (a + 1))" using Suc.hyps(2) by simp
    from Suc.hyps(1) [OF this run] obtain k where
      k: "written d' = written d2 @ replicate k pkt" "int k \<le> max 0 (numAttempts - (a + 1))"
      by blast
    have "written d' = written d @ replicate (Suc k) pkt"
      using k(1) w2 by simp
    moreover have "int (Suc k) \<le> max 0 (numAttempts - a)" using k(2) a by simp
    ultimately show ?thesis by blast
  qed
qed

lemma recv_ack_byte:
  "b \<noteq> 0x00 \<Longrightarrow> rd_script d (rd_pos d) = read_byte b \<Longrightarrow> recvAck d = Some (skip d 1, Ok b)"
  unfolding recvAck_def recvNonZero_def
  by (rule recv_step_ends) (simp_all add: numAttempts_def recv_ends_def read_byte_def)

lemma new_port_simps [simp]:
  "rd_script (new_port s) = s" "rd_pos (new_port s) = 0" "written (new_port s) = []"
  "writes_ok (new_port s)"
  by (simp_all add: new_port_def writes_ok_def)

text \<open>
  C3: on a port whose writes succeed, \<open>SendPacket\<close> writes the same full frame at
  every attempt and makes at least one and at most three attempts. It succeeds as soon
  as the acknowledgment read yields \<open>CC_ACK\<close> (at the first, the second or the third
  attempt); a timeout of that read or any other byte, \<open>CC_NACK\<close> included, makes it
  send the frame again; after three such attempts it fails with \<open>ErrDevice\<close>. When
  the port answers \<open>0x33\<close>, \<open>0x33\<close>, \<open>0xCC\<close>, the call succeeds after three reads
  and three writes of the frame.
\<close>

theorem SendPacket_retries:
  assumes ok: "writes_ok d"
  shows
  "(\<forall>d' r. SendPacket d pkt = Some (d', r) \<longrightarrow>
      (\<exists>k. 1 \<le> k \<and> k \<le> 3 \<and> written d' = written d @ replicate k pkt))
   \<and> (\<forall>d1. recvAck (wrote d pkt) = Some (d1, Ok CC_ACK) \<longrightarrow>
        SendPacket d pkt = Some (d1, Ok ()))
   \<and> (\<forall>d1 r1 d2. recvAck (wrote d pkt) = Some (d1, r1) \<longrightarrow> ack_resend r1 \<longrightarrow>
        recvAck (wrote d1 pkt) = Some (d2, Ok CC_ACK) \<longrightarrow>
        SendPacket d pkt = Some (d2, Ok ()))
   \<and> (\<forall>d1 r1 d2 r2 d3. recvAck (wrote d pkt) = Some (d1, r1) \<longrightarrow> ack_resend r1 \<longrightarrow>
        recvAck (wrote d1 pkt) = Some (d2, r2) \<longrightarrow> ack_resend r2 \<longrightarrow>
        recvAck (wrote d2 pkt) = Some (d3, Ok CC_ACK) \<longrightarrow>
        SendPacket d pkt = Some (d3, Ok ()))
   \<and> (\<forall>d1 r1 d2 r2 d3 r3. recvAck (wrote d pkt) = Some (d1, r1) \<longrightarrow> ack_resend r1 \<longrightarrow>
        recvAck (wrote d1 pkt) = Some (d2, r2) \<longrightarrow> ack_resend r2 \<longrightarrow>
        recvAck (wrote d2 pkt) = Some (d3, r3) \<longrightarrow> ack_resend r3 \<longrightarrow>
        SendPacket d pkt = Some (d3, Err ErrDevice))
   \<and> (rd_script d (rd_pos d) = read_byte 0x33 \<longrightarrow>
      rd_script d (rd_pos d + 1) = read_byte 0x33 \<longrightarrow>
      rd_script d (rd_pos d + 2) = read_byte 0xCC \<longrightarrow>
        SendPacket d pkt = Some (wrote (wrote (wrote (skip d 3) pkt) pkt) pkt, Ok ()))"
proof -
  have n0: "(0::int) < numAttempts" "(1::int) < numAttempts" "(2::int) < numAttempts"
    and n3: "\<not> (3::int) < numAttempts"
    by (simp_all add: numAttempts_def)
  have okk: "\<And>d1 r1 e. recvAck (wrote e pkt) = Some (d1, r1) \<Longrightarrow> writes_ok e \<Longrightarrow> writes_ok d1"
    by (auto dest: recvAck_skip)
  have ack: "SendPacket_loop e pkt a = Some (e1, Ok ())"
    if "a < numAttempts" "writes_ok e" "recvAck (wrote e pkt) = Some (e1, Ok CC_ACK)" for e a e1
    using that by (rule SendPacket_loop_ack)
  have again: "SendPacket_loop e pkt a = SendPacket_loop e1 pkt (a + 1) \<and> writes_ok e1"
    if "a < numAttempts" "writes_ok e" "recvAck (wrote e pkt) = Some (e1, r1)" "ack_resend r1"
    for e a e1 r1
    using that SendPacket_loop_resend [OF that] okk [OF that(3,2)] by simp
  have c1: "\<exists>k. 1 \<le> k \<and> k \<le> 3 \<and> written d' = written d @ replicate k pkt"
    if "SendPacket d pkt = Some (d', r)" for d' r
  proof -
    from that have "SendPacket_loop d pkt 0 = Some (d', r)" by (simp add: SendPacket_def)
    from SendPacket_loop_writes [OF this] obtain k where
      "written d' = written d @ replicate k pkt" "int k \<le> max 0 (numAttempts - 0)" "0 < k"
      using n0(1) by blast
    then show ?thesis by (intro exI [of _ k]) (simp add: numAttempts_def)
  qed
  have c2: "SendPacket d pkt = Some (d1, Ok ())"
    if "recvAck (wrote d pkt) = Some (d1, Ok CC_ACK)" for d1
    using ack [OF n0(1) ok that] by (simp add: SendPacket_def)
  have c3: "SendPacket d pkt = Some (d2, Ok ())"
    if "recvAck (wrote d pkt) = Some (d1, r1)" "ack_resend r1"
      "recvAck (wrote d1 pkt) = Some (d2, Ok CC_ACK)" for d1 r1 d2
  proof -
    from again [OF n0(1) ok that(1,2)]
    have 1: "SendPacket_loop d pkt 0 = SendPacket_loop d1 pkt 1" and ok1: "writes_ok d1"
      by simp_all
    from ack [OF n0(2) ok1 that(3)] 1 show ?thesis by (simp add: SendPacket_def)
  qed
  have c4: "SendPacket d pkt = Some (d3, Ok ())"
    if "recvAck (wrote d pkt) = Some (d1, r1)" "ack_resend r1"
      "recvAck (wrote d1 pkt) = Some (d2, r2)" "ack_resend r2"
      "recvAck (wrote d2 pkt) = Some (d3, Ok CC_ACK)" for d1 r1 d2 r2 d3
  proof -
    from again [OF n0(1) ok that(1,2)]
    have 1: "SendPacket_loop d pkt 0 = SendPacket_loop d1 pkt 1" and ok1: "writes_ok d1"
      by simp_all
    from again [OF n0(2) ok1 that(3,4)]
    have 2: "SendPacket_loop d1 pkt 1 = SendPacket_loop d2 pkt 2" and ok2: "writes_ok d2"
      by simp_all
    from ack [OF n0(3) ok2 that(5)] 1 2 show ?thesis by (simp add: SendPacket_def)
  qed
  have c5: "SendPacket d pkt = Some (d3, Err ErrDevice)"
    if "recvAck (wrote d pkt) = Some (d1, r1)" "ack_resend r1"
      "recvAck (wrote d1 pkt) = Some (d2, r2)" "ack_resend r2"
      "recvAck (wrote d2 pkt) = Some (d3, r3)" "ack_resend r3" for d1 r1 d2 r2 d3 r3
  proof -
    from again [OF n0(1) ok that(1,2)]
    have 1: "SendPacket_loop d pkt 0 = SendPacket_loop d1 pkt 1" and ok1: "writes_ok d1"
      by simp_all
    from again [OF n0(2) ok1 that(3,4)]
    have 2: "SendPacket_loop d1 pkt 1 = SendPacket_loop d2 pkt 2" and ok2: "writes_ok d2"
      by simp_all
    from again [OF n0(3) ok2 that(5,6)]
    have 3: "SendPacket_loop d2 pkt 2 = SendPacket_loop d3 pkt 3"
      by simp
    from SendPacket_loop_exhausted [OF n3] 1 2 3 show ?thesis by (simp add: SendPacket_def)
  qed
  have c6: "SendPacket d pkt = Some (wrote (wrote (wrote (skip d 3) pkt) pkt) pkt, Ok ())"
    if s: "rd_script d (rd_pos d) = read_byte 0x33"
      "rd_script d (rd_pos d + 1) = read_byte 0x33"
      "rd_script d (rd_pos d + 2) = read_byte 0xCC"
  proof -
    let ?d1 = "skip (wrote d pkt) 1"
    let ?d2 = "skip (wrote ?d1 pkt) 1"
    let ?d3 = "skip (wrote ?d2 pkt) 1"
    have a1: "recvAck (wrote d pkt) = Some (?d1, Ok 0x33)"
      by (rule recv_ack_byte) (simp_all add: s)
    have a2: "recvAck (wrote ?d1 pkt) = Some (?d2, Ok 0x33)"
      using s(2) by (intro recv_ack_byte) simp_all
    have "rd_pos d + 2 = Suc (Suc (rd_pos d))" by simp
    with s(3) have s3: "rd_script (wrote ?d2 pkt) (rd_pos (wrote ?d2 pkt)) = read_byte 0xCC"
      by simp
    have "(0xCC :: byte) \<noteq> 0x00" by simp
    from recv_ack_byte [OF this s3]
    have a3: "recvAck (wrote ?d2 pkt) = Some (?d3, Ok CC_ACK)"
      by (simp add: CC_ACK_def)
    have r: "ack_resend (Ok 0x33)" by (simp add: ack_resend_def CC_ACK_def)
    have "SendPacket d pkt = Some (?d3, Ok ())"
      by (rule c4 [OF a1 r a2 r a3])
    moreover have "?d3 = wrote (wrote (wrote (skip d 3) pkt) pkt) pkt"
      by (simp add: skip_def wrote_def)
    ultimately show ?thesis by simp
  qed
  show ?thesis
    using c1 c2 c3 c4 c5 c6 by blast
qed


text \<open>
  C3 on the port that answers \<open>0x33\<close>, \<open>0x33\<close>, \<open>0xCC\<close>, with the frame of the
  Ping command: the call succeeds and the port has seen the frame three times.
\<close>

theorem SendPacket_retries_witness:
  "writes_ok (new_port (bytes_then_silence [0x33, 0x33, 0xCC]))
   \<and> SendPacket (new_port (bytes_then_silence [0x33, 0x33, 0xCC])) [0x03, 0x20, 0x20]
       = Some (wrote (wrote (wrote (skip (new_port (bytes_then_silence [0x33, 0x33, 0xCC])) 3)
            [0x03, 0x20, 0x20]) [0x03, 0x20, 0x20]) [0x03, 0x20, 0x20], Ok ())
   \<and> written (wrote (wrote (wrote (skip (new_port (bytes_then_silence [0x33, 0x33, 0xCC])) 3)
            [0x03, 0x20, 0x20]) [0x03, 0x20, 0x20]) [0x03, 0x20, 0x20])
       = [ [0x03, 0x20, 0x20], [0x03, 0x20, 0x20], [0x03, 0x20, 0x20] ]"
  using SendPacket_retries [of "new_port (bytes_then_silence [0x33, 0x33, 0xCC])" "[0x03, 0x20, 0x20]"]
  by (simp add: bytes_then_silence_def)

lemma reads_bytes_Cons:
  "reads_bytes d (b # bs) \<longleftrightarrow> rd_script d (rd_pos d) = read_byte b \<and> reads_bytes (skip d 1) bs"
  by simp

lemma skip_wrote: "skip (wrote d buf) k = wrote (skip d k) buf"
  by (simp add: skip_def wrote_def)

lemma reads_bytes_wrote [simp]: "reads_bytes (wrote d buf) bs = reads_bytes d bs"
  by (induction bs arbitrary: d) (simp_all add: skip_wrote)

lemma recvByte_loop_skip: "recvByte_loop d a = (d', r) \<Longrightarrow> \<exists>k. d' = skip d k"
proof (induction "nat (numAttempts + 1 - a)" arbitrary: a d)
  case 0
  then have "numAttempts < a" by simp
  with 0(2) have "d' = d" by (simp add: recvByte_loop.simps)
  then have "d' = skip d 0" by simp
  then show ?case ..
next
  case (Suc n)
  then have a: "\<not> numAttempts < a" by simp
  let ?r = "rd_script d (rd_pos d)"
  show ?case
  proof (cases "rd_err ?r = None \<and> rd_n ?r = 0")
    case True
    with a Suc.prems have run: "recvByte_loop (skip d 1) (a + 1) = (d', r)"
      by (simp add: recvByte_loop.simps [of d a] port_Read_skip Let_def)
    have "n = nat (numAttempts + 1 - (a + 1))" using Suc.hyps(2) by simp
    from Suc.hyps(1) [OF this run] obtain k where "d' = skip (skip d 1) k" ..
    then have "d' = skip d (1 + k)" by simp
    then show ?thesis ..
  next
    case False
    with a Suc.prems have "d' = skip d 1"
      by (auto simp add: recvByte_loop.simps [of d a] port_Read_skip Let_def split: if_splits)
    then show ?thesis ..
  qed
qed

lemma recvByte_skip: "recvByte d = (d', r) \<Longrightarrow> \<exists>k. d' = skip d k"
  by (simp add: recvByte_def recvByte_loop_skip)

lemma recvByte_byte:
  "rd_script d (rd_pos d) = read_byte b \<Longrightarrow> recvByte d = (skip d 1, Ok b)"
  by (simp add: recvByte_def recvByte_loop.simps [of d 0] port_Read_skip read_byte_def
      numAttempts_def)

lemma RecvPacket_fill_skip:
  "RecvPacket_fill d pkt count sz = (d', r) \<Longrightarrow> \<exists>k. d' = skip d k"
proof (induction "nat (sz - count)" arbitrary: count d pkt)
  case 0
  then have "\<not> count < sz" by simp
  with 0(2) have "d' = skip d 0" by (simp add: RecvPacket_fill.simps)
  then show ?case ..
next
  case (Suc n)
  then have c: "count < sz" by simp
  obtain d1 rb where rb: "recvByte d = (d1, rb)" by (cases "recvByte d")
  from recvByte_skip [OF rb] obtain j where j: "d1 = skip d j" ..
  show ?case
  proof (cases "\<exists>b. rb = Ok b \<and> 0 \<le> count \<and> nat count < length pkt")
    case True
    then obtain b where b: "rb = Ok b" "0 \<le> count" "nat count < length pkt" by blast
    with c rb Suc.prems
    have run: "RecvPacket_fill d1 (pkt[nat count := b]) (count + 1) sz = (d', r)"
      by (simp add: RecvPacket_fill.simps [of d pkt count sz])
    have "n = nat (sz - (count + 1))" using Suc.hyps(2) by simp
    from Suc.hyps(1) [OF this run] obtain k where "d' = skip d1 k" ..
    with j have "d' = skip d (j + k)" by simp
    then show ?thesis ..
  next
    case False
    with c rb Suc.prems have "d' = d1"
      by (cases rb) (auto simp add: RecvPacket_fill.simps [of d pkt count sz] split: if_splits)
    with j show ?thesis by blast
  qed
qed

lemma RecvPacket_frame_skip:
  assumes "RecvPacket_frame d = Some (d', r)"
  shows "\<exists>k. d' = skip d k"
proof -
  from assms obtain d1 r1 where nz: "recvNonZero d = Some (d1, r1)"
    by (cases "recvNonZero d") (auto simp add: RecvPacket_frame_def)
  from recvNonZero_skip [OF nz] obtain j where j: "d1 = skip d j" ..
  show ?thesis
  proof (cases r1)
    case (Ok sz)
    show ?thesis
    proof (cases "nat (uint sz) = 0")
      case True
      with assms nz Ok have "d' = d1" by (simp add: RecvPacket_frame_def)
      with j show ?thesis by blast
    next
      case False
      with assms nz Ok have
        "RecvPacket_fill d1 ((replicate (nat (uint sz)) 0)[0 := sz]) 1 (uint sz) = (d', r)"
        by (simp add: RecvPacket_frame_def)
      from RecvPacket_fill_skip [OF this] obtain k where "d' = skip d1 k" ..
      with j have "d' = skip d (j + k)" by simp
      then show ?thesis ..
    qed
  next
    case (Err e)
    with assms nz have "d' = d1" by (simp add: RecvPacket_frame_def)
    with j show ?thesis by blast
  next
    case Panic
    with assms nz have "d' = d1" by (simp add: RecvPacket_frame_def)
    with j show ?thesis by blast
  qed
qed

lemma RecvPacket_fill_reads:
  "reads_bytes d bs \<Longrightarrow> 0 \<le> count \<Longrightarrow> nat count + length bs = length pkt \<Longrightarrow>
   sz = int (length pkt) \<Longrightarrow>
   RecvPacket_fill d pkt count sz = (skip d (length bs), Ok (take (nat count) pkt @ bs))"
proof (induction bs arbitrary: d pkt count)
  case Nil
  then have "\<not> count < sz" "nat count = length pkt" by simp_all
  then show ?case by (subst RecvPacket_fill.simps) simp
next
  case (Cons b bs)
  from Cons.prems(1) have b: "rd_script d (rd_pos d) = read_byte b"
    and bs: "reads_bytes (skip d 1) bs"
    by (simp_all add: reads_bytes_Cons)
  have c: "count < sz" "nat count < length pkt" using Cons.prems by simp_all
  have n: "nat (count + 1) = Suc (nat count)" using Cons.prems(2) by simp
  have "RecvPacket_fill (skip d 1) (pkt[nat count := b]) (count + 1) sz
        = (skip (skip d 1) (length bs),
           Ok (take (nat (count + 1)) (pkt[nat count := b]) @ bs))"
    using bs Cons.prems by (intro Cons.IH) simp_all
  moreover have "take (nat (count + 1)) (pkt[nat count := b]) = take (nat count) pkt @ [b]"
    using c(2) by (simp add: n take_Suc_conv_app_nth)
  ultimately show ?case
    using c Cons.prems(2)
    by (simp add: RecvPacket_fill.simps [of d pkt count sz] recvByte_byte [OF b])
qed

lemma RecvPacket_frame_reads:
  assumes rd: "reads_bytes d (sz # bs)" and nz: "sz \<noteq> 0x00" and len: "Suc (length bs) = unat sz"
  shows "RecvPacket_frame d = Some (skip d (Suc (length bs)), Ok (sz # bs))"
proof -
  from rd have b: "rd_script d (rd_pos d) = read_byte sz"
    and bs: "reads_bytes (skip d 1) bs"
    by (simp_all add: reads_bytes_Cons)
  have first: "recvNonZero d = Some (skip d 1, Ok sz)"
    using recv_ack_byte [OF nz b] by (simp add: recvAck_def)
  let ?pkt = "(replicate (nat (uint sz)) (0 :: byte))[0 := sz]"
  have l: "unat sz = Suc (length bs)" using len by simp
  have lp: "length ?pkt = Suc (length bs)" by (simp add: l)
  have u: "uint sz = int (length ?pkt)" unfolding lp using l by (simp flip: l)
  have "RecvPacket_fill (skip d 1) ?pkt 1 (uint sz)
        = (skip (skip d 1) (length bs), Ok (take (nat 1) ?pkt @ bs))"
  proof (rule RecvPacket_fill_reads [OF bs])
    show "(0::int) \<le> 1" by simp
    show "nat 1 + length bs = length ?pkt" unfolding lp by simp
    show "uint sz = int (length ?pkt)" by (rule u)
  qed
  moreover have "take (nat 1) ?pkt = [sz]" by (simp add: l)
  ultimately have "RecvPacket_fill (skip d 1) ?pkt 1 (uint sz)
        = (skip d (Suc (length bs)), Ok (sz # bs))" by simp
  moreover have "length (replicate (nat (uint sz)) (0 :: byte)) \<noteq> 0" by (simp add: l)
  ultimately show ?thesis
    unfolding RecvPacket_frame_def first Let_def by simp
qed

lemma sendAck_ok: "writes_ok d \<Longrightarrow> sendAck d ack = (wrote d [ack], Ok ())"
  by (simp add: sendAck_def port_Write_ok)

lemma RecvPacket_loop_ack:
  "attempt < numAttempts \<Longrightarrow> writes_ok d \<Longrightarrow> RecvPacket_frame d = Some (d1, Ok pkt) \<Longrightarrow>
   decodePacket pkt = Ok data \<Longrightarrow>
   RecvPacket_loop d attempt = Some (wrote d1 [CC_ACK], Ok data)"
  by (subst RecvPacket_loop.simps)
    (auto dest!: RecvPacket_frame_skip simp add: sendAck_ok)

lemma RecvPacket_loop_nack:
  "attempt < numAttempts \<Longrightarrow> writes_ok d \<Longrightarrow> RecvPacket_frame d = Some (d1, Ok pkt) \<Longrightarrow>
   decodePacket pkt = Err e \<Longrightarrow>
   RecvPacket_loop d attempt = RecvPacket_loop (wrote d1 [CC_NACK]) (attempt + 1)"
  by (subst RecvPacket_loop.simps)
    (auto dest!: RecvPacket_frame_skip simp add: sendAck_ok)

lemma RecvPacket_loop_exhausted:
  "\<not> attempt < numAttempts \<Longrightarrow> RecvPacket_loop d attempt = Some (d, Err ErrDevice)"
  by (subst RecvPacket_loop.simps) simp

lemma decodePacket_not_Panic: "decodePacket pkt \<noteq> Panic"
  by (simp add: decodePacket_def)


lemma RecvPacket_loop_step:
  assumes a: "a < numAttempts" and ok: "writes_ok d"
    and run: "RecvPacket_loop d a = Some (d', r)"
  shows "(\<not> is_Ok r \<and> written d' = written d)
         \<or> (is_Ok r \<and> written d' = written d @ [ [CC_ACK] ])
         \<or> (\<exists>d2. writes_ok d2 \<and> written d2 = written d @ [ [CC_NACK] ]
                 \<and> RecvPacket_loop d2 (a + 1) = Some (d', r))"
proof -
  from run a obtain d1 rf where fr: "RecvPacket_frame d = Some (d1, rf)"
    by (cases "RecvPacket_frame d") (auto simp add: RecvPacket_loop.simps [of d a])
  from RecvPacket_frame_skip [OF fr] obtain j where j: "d1 = skip d j" ..
  show ?thesis
  proof (cases rf)
    case (Err e)
    with run a fr have "d' = d1" "r = Err e"
      by (simp_all add: RecvPacket_loop.simps [of d a])
    with j show ?thesis by (simp add: is_Ok_def)
  next
    case Panic
    with run a fr have "d' = d1" "r = Panic"
      by (simp_all add: RecvPacket_loop.simps [of d a])
    with j show ?thesis by (simp add: is_Ok_def)
  next
    case (Ok pkt)
    show ?thesis
    proof (cases "decodePacket pkt")
      case Panic
      then show ?thesis by (simp add: decodePacket_not_Panic)
    next
      case (Ok data)
      from RecvPacket_loop_ack [OF a ok fr [unfolded \<open>rf = Ok pkt\<close>] Ok] run
      have "d' = wrote d1 [CC_ACK]" "r = Ok data" by simp_all
      with j show ?thesis by (simp add: is_Ok_def)
    next
      case (Err e)
      from RecvPacket_loop_nack [OF a ok fr [unfolded \<open>rf = Ok pkt\<close>] Err] run
      have "RecvPacket_loop (wrote d1 [CC_NACK]) (a + 1) = Some (d', r)" by simp
      moreover have "writes_ok (wrote d1 [CC_NACK])" using ok j by simp
      moreover have "written (wrote d1 [CC_NACK]) = written d @ [ [CC_NACK] ]" using j by simp
      ultimately show ?thesis by blast
    qed
  qed
qed

lemma RecvPacket_loop_writes:
  "writes_ok d \<Longrightarrow> RecvPacket_loop d a = Some (d', r) \<Longrightarrow>
   \<exists>k. int k \<le> max 0 (numAttempts - a)
       \<and> written d' = written d @ replicate k [CC_NACK] @ (if is_Ok r then [ [CC_ACK] ] else [])"
proof (induction "nat (numAttempts - a)" arbitrary: a d)
  case 0
  then have "\<not> a < numAttempts" by simp
  with 0(3) have "d' = d" "r = Err ErrDevice" by (simp_all add: RecvPacket_loop_exhausted)
  then show ?case by (intro exI [of _ 0]) (simp add: is_Ok_def)
next
  case (Suc n)
  then have a: "a < numAttempts" by simp
  from RecvPacket_loop_step [OF a Suc.prems] consider
    (err) "\<not> is_Ok r" "written d' = written d"
    | (ack) "is_Ok r" "written d' = written d @ [ [CC_ACK] ]"
    | (nack) d2 where "writes_ok d2" "written d2 = written d @ [ [CC_NACK] ]"
        "RecvPacket_loop d2 (a + 1) = Some (d', r)"
    by blast
  then show ?case
  proof cases
    case err
    then show ?thesis by (intro exI [of _ 0]) simp
  next
    case ack
    then show ?thesis by (intro exI [of _ 0]) simp
  next
    case nack
    have "n = nat (numAttempts - (a + 1))" using Suc.hyps(2) by simp
    from Suc.hyps(1) [OF this nack(1,3)] obtain k where
      k: "int k \<le> max 0 (numAttempts - (a + 1))"
        "written d' = written d2 @ replicate k [CC_NACK] @ (if is_Ok r then [ [CC_ACK] ] else [])"
      by blast
    have "int (Suc k) \<le> max 0 (numAttempts - a)" using k(1) a by simp
    moreover have
      "written d' = written d @ replicate (Suc k) [CC_NACK] @ (if is_Ok r then [ [CC_ACK] ] else [])"
      using k(2) nack(2) by simp
    ultimately show ?thesis by blast
  qed
qed

text \<open>
  C4: on a port whose writes succeed, in every round of \<open>RecvPacket\<close> a frame that
  validates makes it write the one byte \<open>CC_ACK\<close> and return the decoded payload, and
  a frame that fails validation makes it write the one byte \<open>CC_NACK\<close> and start the
  next round; after the third round it fails with \<open>ErrDevice\<close>. Whenever the call
  returns it has written at most three times \<open>CC_NACK\<close>, followed by one \<open>CC_ACK\<close>
  exactly when it succeeded, and nothing else; three failed frames in a row give
  \<open>ErrDevice\<close>. On the stream \<open>0x05 0x00 0x28 0x00 0x00\<close> the call reads the five
  bytes, writes one \<open>CC_NACK\<close> and goes on with the second round.
\<close>

theorem RecvPacket_acks:
  assumes ok: "writes_ok d"
  shows
  "(\<forall>attempt d1 pkt data. attempt < numAttempts \<longrightarrow>
        RecvPacket_frame d = Some (d1, Ok pkt) \<longrightarrow> decodePacket pkt = Ok data \<longrightarrow>
        RecvPacket_loop d attempt = Some (wrote d1 [CC_ACK], Ok data))
   \<and> (\<forall>attempt d1 pkt e. attempt < numAttempts \<longrightarrow>
        RecvPacket_frame d = Some (d1, Ok pkt) \<longrightarrow> decodePacket pkt = Err e \<longrightarrow>
        RecvPacket_loop d attempt = RecvPacket_loop (wrote d1 [CC_NACK]) (attempt + 1))
   \<and> (\<forall>attempt. \<not> attempt < numAttempts \<longrightarrow>
        RecvPacket_loop d attempt = Some (d, Err ErrDevice))
   \<and> (\<forall>d' r. RecvPacket d = Some (d', r) \<longrightarrow>
        (\<exists>k. k \<le> 3 \<and> written d' = written d @ replicate k [CC_NACK]
                              @ (if is_Ok r then [ [CC_ACK] ] else [])))
   \<and> (\<forall>d1 p1 e1 d2 p2 e2 d3 p3 e3.
        RecvPacket_frame d = Some (d1, Ok p1) \<longrightarrow> decodePacket p1 = Err e1 \<longrightarrow>
        RecvPacket_frame (wrote d1 [CC_NACK]) = Some (d2, Ok p2) \<longrightarrow> decodePacket p2 = Err e2 \<longrightarrow>
        RecvPacket_frame (wrote d2 [CC_NACK]) = Some (d3, Ok p3) \<longrightarrow> decodePacket p3 = Err e3 \<longrightarrow>
        RecvPacket d = Some (wrote d3 [CC_NACK], Err ErrDevice))
   \<and> (reads_bytes d [0x05, 0x00, 0x28, 0x00, 0x00] \<longrightarrow>
        RecvPacket d = RecvPacket_loop (wrote (skip d 5) [CC_NACK]) 1)"
proof -
  have n0: "(0::int) < numAttempts" "(1::int) < numAttempts" "(2::int) < numAttempts"
    and n3: "\<not> (3::int) < numAttempts"
    by (simp_all add: numAttempts_def)
  have again: "RecvPacket_loop e a = RecvPacket_loop (wrote e1 [CC_NACK]) (a + 1)
               \<and> writes_ok (wrote e1 [CC_NACK])"
    if "a < numAttempts" "writes_ok e" "RecvPacket_frame e = Some (e1, Ok p)"
      "decodePacket p = Err x" for e a e1 p x
    using RecvPacket_loop_nack [OF that] RecvPacket_frame_skip [OF that(3)] that(2) by auto
  have c4: "\<exists>k. k \<le> 3 \<and> written d' = written d @ replicate k [CC_NACK]
                              @ (if is_Ok r then [ [CC_ACK] ] else [])"
    if "RecvPacket d = Some (d', r)" for d' r
  proof -
    from that have "RecvPacket_loop d 0 = Some (d', r)" by (simp add: RecvPacket_def)
    from RecvPacket_loop_writes [OF ok this] obtain k where
      "int k \<le> max 0 (numAttempts - 0)"
      "written d' = written d @ replicate k [CC_NACK] @ (if is_Ok r then [ [CC_ACK] ] else [])"
      by blast
    then show ?thesis by (intro exI [of _ k]) (simp add: numAttempts_def)
  qed
  have c5: "RecvPacket d = Some (wrote d3 [CC_NACK], Err ErrDevice)"
    if "RecvPacket_frame d = Some (d1, Ok p1)" "decodePacket p1 = Err e1"
      "RecvPacket_frame (wrote d1 [CC_NACK]) = Some (d2, Ok p2)" "decodePacket p2 = Err e2"
      "RecvPacket_frame (wrote d2 [CC_NACK]) = Some (d3, Ok p3)" "decodePacket p3 = Err e3"
    for d1 p1 e1 d2 p2 e2 d3 p3 e3
  proof -
    from again [OF n0(1) ok that(1,2)]
    have 1: "RecvPacket_loop d 0 = RecvPacket_loop (wrote d1 [CC_NACK]) 1"
      and ok1: "writes_ok (wrote d1 [CC_NACK])" by simp_all
    from again [OF n0(2) ok1 that(3,4)]
    have 2: "RecvPacket_loop (wrote d1 [CC_NACK]) 1 = RecvPacket_loop (wrote d2 [CC_NACK]) 2"
      and ok2: "writes_ok (wrote d2 [CC_NACK])" by simp_all
    from again [OF n0(3) ok2 that(5,6)]
    have 3: "RecvPacket_loop (wrote d2 [CC_NACK]) 2 = RecvPacket_loop (wrote d3 [CC_NACK]) 3"
      by simp
    from RecvPacket_loop_exhausted [OF n3] 1 2 3 show ?thesis by (simp add: RecvPacket_def)
  qed
  have c6: "RecvPacket d = RecvPacket_loop (wrote (skip d 5) [CC_NACK]) 1"
    if "reads_bytes d [0x05, 0x00, 0x28, 0x00, 0x00]"
  proof -
    have "RecvPacket_frame d = Some (skip d (Suc (length [0x00, 0x28, 0x00, 0x00 :: byte])),
            Ok [0x05, 0x00, 0x28, 0x00, 0x00])"
      using that by (intro RecvPacket_frame_reads) simp_all
    then have fr: "RecvPacket_frame d = Some (skip d 5, Ok [0x05, 0x00, 0x28, 0x00, 0x00])"
      by simp
    have bad: "decodePacket [0x05, 0x00, 0x28, 0x00, 0x00] = Err ErrBadPacket"
      by (simp add: decodePacket_def encodeSize_def checksum_def)
    from again [OF n0(1) ok fr bad] show ?thesis by (simp add: RecvPacket_def)
  qed
  show ?thesis
    using RecvPacket_loop_ack [OF _ ok] RecvPacket_loop_nack [OF _ ok]
      RecvPacket_loop_exhausted c4 c5 c6
    by blast
qed


text \<open>
  C4 on the stream \<open>0x05 0x00 0x28 0x00 0x00\<close> followed by the valid frame
  \<open>0x03 0x28 0x28\<close>: one \<open>CC_NACK\<close>, then one \<open>CC_ACK\<close>, and the payload \<open>[0x28]\<close>.
\<close>

theorem RecvPacket_acks_witness:
  "writes_ok (new_port (bytes_then_silence [0x05, 0x00, 0x28, 0x00, 0x00, 0x03, 0x28, 0x28]))
   \<and> RecvPacket (new_port (bytes_then_silence [0x05, 0x00, 0x28, 0x00, 0x00, 0x03, 0x28, 0x28]))
       = Some (wrote (skip (wrote (skip
           (new_port (bytes_then_silence [0x05, 0x00, 0x28, 0x00, 0x00, 0x03, 0x28, 0x28])) 5)
           [CC_NACK]) 3) [CC_ACK], Ok [0x28])
   \<and> written (wrote (skip (wrote (skip
           (new_port (bytes_then_silence [0x05, 0x00, 0x28, 0x00, 0x00, 0x03, 0x28, 0x28])) 5)
           [CC_NACK]) 3) [CC_ACK]) = [ [0x33], [0xCC] ]"
proof -
  let ?d = "new_port (bytes_then_silence [0x05, 0x00, 0x28, 0x00, 0x00, 0x03, 0x28, 0x28])"
  let ?d1 = "wrote (skip ?d 5) [CC_NACK]"
  have ok: "writes_ok ?d" and ok1: "writes_ok ?d1" by simp_all
  have "reads_bytes ?d [0x05, 0x00, 0x28, 0x00, 0x00]"
    by (simp add: reads_bytes_Cons bytes_then_silence_def)
  with RecvPacket_acks [OF ok] have 1: "RecvPacket ?d = RecvPacket_loop ?d1 1" by blast
  have "reads_bytes ?d1 [0x03, 0x28, 0x28]"
    by (simp add: reads_bytes_Cons bytes_then_silence_def)
  then have "RecvPacket_frame ?d1 = Some (skip ?d1 (Suc (length [0x28, 0x28 :: byte])), Ok [0x03, 0x28, 0x28])"
    by (intro RecvPacket_frame_reads) simp_all
  then have fr: "RecvPacket_frame ?d1 = Some (skip ?d1 3, Ok [0x03, 0x28, 0x28])" by simp
  have dec: "decodePacket [0x03, 0x28, 0x28] = Ok [0x28]"
    by (simp add: decodePacket_def encodeSize_def checksum_def)
  have "(1::int) < numAttempts" by (simp add: numAttempts_def)
  with RecvPacket_acks [OF ok1] fr dec
  have 2: "RecvPacket_loop ?d1 1 = Some (wrote (skip ?d1 3) [CC_ACK], Ok [0x28])" by blast
  show ?thesis using 1 2 by (simp add: CC_ACK_def CC_NACK_def)
qed

section \<open>High level commands\<close>

lemma push_byte_of_nat:
  "push_bit n (ucast (a :: byte) :: uint32) = of_nat (2 ^ n * unat a)"
  by (simp add: push_bit_eq_mult)

lemma bit_push_byte:
  "bit (push_bit k (ucast (a :: byte) :: uint32)) n \<Longrightarrow> k \<le> n \<and> n < k + 8"
  by (auto simp add: bit_push_bit_iff bit_ucast_iff dest: bit_imp_le_length)

lemma be_or_add:
  fixes a b c e :: byte
  shows "((((0 :: uint32) OR push_bit (3 * 8) (ucast a)) OR push_bit (2 * 8) (ucast b))
            OR push_bit (1 * 8) (ucast c)) OR push_bit (0 * 8) (ucast e)
         = push_bit 24 (ucast a) + push_bit 16 (ucast b) + push_bit 8 (ucast c)
            + push_bit 0 (ucast e)"
proof -
  let ?x3 = "push_bit 24 (ucast a) :: uint32"
  let ?x2 = "push_bit 16 (ucast b) :: uint32"
  let ?x1 = "push_bit 8 (ucast c) :: uint32"
  let ?x0 = "push_bit 0 (ucast e) :: uint32"
  have 1: "?x3 + ?x2 = ?x3 OR ?x2"
    by (rule disjunctive_add) (use bit_push_byte [of 24 a] bit_push_byte [of 16 b] in fastforce)
  have 2: "(?x3 OR ?x2) + ?x1 = (?x3 OR ?x2) OR ?x1"
    by (rule disjunctive_add)
      (use bit_push_byte [of 24 a] bit_push_byte [of 16 b] bit_push_byte [of 8 c]
        in \<open>fastforce simp add: bit_or_iff\<close>)
  have 3: "((?x3 OR ?x2) OR ?x1) + ?x0 = ((?x3 OR ?x2) OR ?x1) OR ?x0"
    by (rule disjunctive_add)
      (use bit_push_byte [of 24 a] bit_push_byte [of 16 b] bit_push_byte [of 8 c]
        bit_push_byte [of 0 e] in \<open>fastforce simp add: bit_or_iff\<close>)
  have "((((0 :: uint32) OR ?x3) OR ?x2) OR ?x1) OR ?x0 = ((?x3 OR ?x2) OR ?x1) OR ?x0"
    by simp
  also have "\<dots> = ?x3 + ?x2 + ?x1 + ?x0"
    using 1 2 3 by simp
  finally show ?thesis by simp
qed

lemma unat_of_nat_uint32: "N < 2 ^ 32 \<Longrightarrow> unat (of_nat N :: uint32) = N"
  by (simp add: unat_of_nat)

lemma be_value:
  fixes a b c e :: byte
  shows "unat (((((0 :: uint32) OR push_bit (3 * 8) (ucast a)) OR push_bit (2 * 8) (ucast b))
            OR push_bit (1 * 8) (ucast c)) OR push_bit (0 * 8) (ucast e))
         = 2 ^ 24 * unat a + 2 ^ 16 * unat b + 2 ^ 8 * unat c + unat e"
proof -
  let ?N = "2 ^ 24 * unat a + 2 ^ 16 * unat b + 2 ^ 8 * unat c + unat e"
  have lt: "unat a < 256" "unat b < 256" "unat c < 256" "unat e < 256"
    using unsigned_less [of a] unsigned_less [of b] unsigned_less [of c] unsigned_less [of e]
    by simp_all
  then have N: "?N < 2 ^ 32" by simp
  have "((((0 :: uint32) OR push_bit (3 * 8) (ucast a)) OR push_bit (2 * 8) (ucast b))
            OR push_bit (1 * 8) (ucast c)) OR push_bit (0 * 8) (ucast e)
        = push_bit 24 (ucast a) + push_bit 16 (ucast b) + push_bit 8 (ucast c)
            + push_bit 0 (ucast e)"
    by (rule be_or_add)
  also have "\<dots> = of_nat (2 ^ 24 * unat a) + of_nat (2 ^ 16 * unat b) + of_nat (2 ^ 8 * unat c)
            + of_nat (2 ^ 0 * unat e)"
    by (simp only: push_byte_of_nat)
  also have "\<dots> = of_nat ?N" by simp
  finally have "unat (((((0 :: uint32) OR push_bit (3 * 8) (ucast a)) OR push_bit (2 * 8) (ucast b))
            OR push_bit (1 * 8) (ucast c)) OR push_bit (0 * 8) (ucast e)) = unat (of_nat ?N :: uint32)"
    by simp
  also have "\<dots> = ?N"
    using N by (rule unat_of_nat_uint32)
  finally show ?thesis .
qed


lemma SendPacket_acked:
  assumes ok: "writes_ok d" and rd: "rd_script d (rd_pos d) = read_byte CC_ACK"
  shows "SendPacket d pkt = Some (skip (wrote d pkt) 1, Ok ())"
proof -
  have "CC_ACK \<noteq> 0x00" by (simp add: CC_ACK_def)
  moreover have "rd_script (wrote d pkt) (rd_pos (wrote d pkt)) = read_byte CC_ACK"
    using rd by simp
  ultimately have "recvAck (wrote d pkt) = Some (skip (wrote d pkt) 1, Ok CC_ACK)"
    by (rule recv_ack_byte)
  moreover have "(0::int) < numAttempts" by (simp add: numAttempts_def)
  ultimately show ?thesis
    unfolding SendPacket_def using ok by (intro SendPacket_loop_ack)
qed

lemma RecvPacket_valid:
  assumes ok: "writes_ok d" and rd: "reads_bytes d (sz # bs)" and nz: "sz \<noteq> 0x00"
    and len: "Suc (length bs) = unat sz" and dec: "decodePacket (sz # bs) = Ok data"
  shows "RecvPacket d = Some (wrote (skip d (Suc (length bs))) [CC_ACK], Ok data)"
proof -
  have "(0::int) < numAttempts" by (simp add: numAttempts_def)
  from RecvPacket_loop_ack [OF this ok RecvPacket_frame_reads [OF rd nz len] dec]
  show ?thesis by (simp add: RecvPacket_def)
qed

lemma SendPacket_first_write:
  assumes "SendPacket d pkt = Some (d', r)"
  shows "\<exists>ws. written d' = written d @ pkt # ws"
proof -
  from assms have "SendPacket_loop d pkt 0 = Some (d', r)" by (simp add: SendPacket_def)
  from SendPacket_loop_writes [OF this] obtain k where
    k: "written d' = written d @ replicate k pkt" "0 < k"
    by (auto simp add: numAttempts_def)
  then obtain j where "k = Suc j" by (cases k) auto
  with k(1) have "written d' = written d @ pkt # replicate j pkt" by simp
  then show ?thesis ..
qed

lemma sendAck_wrote: "sendAck d ack = (d', r) \<Longrightarrow> d' = wrote d [ack]"
  by (auto simp add: sendAck_def port_Write_wrote Let_def split: if_splits)

lemma RecvPacket_loop_appends:
  "RecvPacket_loop d a = Some (d', r) \<Longrightarrow> \<exists>ws. written d' = written d @ ws"
proof (induction "nat (numAttempts - a)" arbitrary: a d)
  case 0
  then have "\<not> a < numAttempts" by simp
  with 0(2) have "d' = d" by (simp add: RecvPacket_loop_exhausted)
  then show ?case by simp
next
  case (Suc n)
  then have a: "a < numAttempts" by simp
  from Suc.prems a obtain d1 rf where fr: "RecvPacket_frame d = Some (d1, rf)"
    by (cases "RecvPacket_frame d") (auto simp add: RecvPacket_loop.simps [of d a])
  from RecvPacket_frame_skip [OF fr] have w1: "written d1 = written d" by auto
  note body = Suc.prems [unfolded RecvPacket_loop.simps [of d a], simplified a fr, simplified]
  have n: "n = nat (numAttempts - (a + 1))" using Suc.hyps(2) by simp
  show ?case
  proof (cases "\<exists>pkt e. rf = Ok pkt \<and> decodePacket pkt = Err e
                  \<and> snd (sendAck d1 CC_NACK) = Ok ()")
    case True
    then obtain pkt e where rf: "rf = Ok pkt" "decodePacket pkt = Err e"
      "snd (sendAck d1 CC_NACK) = Ok ()" by blast
    obtain d2 where d2: "sendAck d1 CC_NACK = (d2, Ok ())"
      using rf(3) by (cases "sendAck d1 CC_NACK") auto
    from sendAck_wrote [OF d2] w1 have w2: "written d2 = written d @ [ [CC_NACK] ]" by simp
    from body rf d2 have "RecvPacket_loop d2 (a + 1) = Some (d', r)" by simp
    from Suc.hyps(1) [OF n this] obtain ws where "written d' = written d2 @ ws" ..
    with w2 show ?thesis by simp
  next
    case False
    have "written d' = written d1 \<or> (\<exists>ack. written d' = written d1 @ [ [ack] ])"
    proof (cases rf)
      case (Ok pkt)
      show ?thesis
      proof (cases "decodePacket pkt")
        case (Ok data)
        obtain d2 ra where d2: "sendAck d1 CC_ACK = (d2, ra)" by (cases "sendAck d1 CC_ACK")
        with body \<open>rf = Ok pkt\<close> Ok have "d' = d2" by (cases ra) auto
        with sendAck_wrote [OF d2] show ?thesis by auto
      next
        case (Err e)
        obtain d2 ra where d2: "sendAck d1 CC_NACK = (d2, ra)" by (cases "sendAck d1 CC_NACK")
        with False \<open>rf = Ok pkt\<close> Err have "ra \<noteq> Ok ()" by auto
        with body \<open>rf = Ok pkt\<close> Err d2 have "d' = d2" by (cases ra) auto
        with sendAck_wrote [OF d2] show ?thesis by auto
      next
        case Panic
        with body \<open>rf = Ok pkt\<close> show ?thesis by auto
      qed
    next
      case (Err e)
      with body show ?thesis by auto
    next
      case Panic
      with body show ?thesis by auto
    qed
    with w1 show ?thesis by auto
  qed
qed

lemma RecvPacket_appends:
  "RecvPacket d = Some (d', r) \<Longrightarrow> \<exists>ws. written d' = written d @ ws"
  by (simp add: RecvPacket_def RecvPacket_loop_appends)


lemma frame_GetChipID: "encodeCmdPacket COMMAND_GET_CHIP_ID [] = [0x03, 0x28, 0x28]"
  by (simp add: encodeCmdPacket_eq encodeSize_def checksum_def COMMAND_GET_CHIP_ID_def)

text \<open>
  C9: when the command frame of \<open>GetChipID\<close> has been sent and acknowledged and the
  reply packet has been received with the payload \<open>data\<close>, a payload whose length is
  not 4 gives \<open>ErrDevice\<close>, and a payload of 4 bytes gives the big-endian value
  \<open>data[0] * 2^24 + data[1] * 2^16 + data[2] * 2^8 + data[3]\<close>; the payload
  \<open>[0x00, 0x00, 0x01, 0x00]\<close> gives 256.
\<close>

theorem GetChipID_reply:
  assumes sent: "SendPacket d (encodeCmdPacket COMMAND_GET_CHIP_ID []) = Some (d1, Ok ())"
    and rcv: "RecvPacket d1 = Some (d2, Ok data)"
  shows "(length data \<noteq> 4 \<longrightarrow> GetChipID d = Some (d2, Err ErrDevice))
   \<and> (length data = 4 \<longrightarrow>
        (\<exists>v. GetChipID d = Some (d2, Ok v)
           \<and> unat v = 2 ^ 24 * unat (data ! 0) + 2 ^ 16 * unat (data ! 1)
                       + 2 ^ 8 * unat (data ! 2) + unat (data ! 3)))
   \<and> (data = [0x00, 0x00, 0x01, 0x00] \<longrightarrow> GetChipID d = Some (d2, Ok 256))"
proof (intro conjI impI)
  assume "length data \<noteq> 4"
  then show "GetChipID d = Some (d2, Err ErrDevice)"
    by (simp add: GetChipID_def sent rcv)
next
  assume l: "length data = 4"
  let ?v = "((((0 :: uint32) OR push_bit (3 * 8) (ucast (data ! 0)))
               OR push_bit (2 * 8) (ucast (data ! 1)))
               OR push_bit (1 * 8) (ucast (data ! 2)))
               OR push_bit (0 * 8) (ucast (data ! 3))"
  have "GetChipID d = Some (d2, Ok ?v)"
    using l by (simp add: GetChipID_def sent rcv Let_def)
  then show "\<exists>v. GetChipID d = Some (d2, Ok v)
           \<and> unat v = 2 ^ 24 * unat (data ! 0) + 2 ^ 16 * unat (data ! 1)
                       + 2 ^ 8 * unat (data ! 2) + unat (data ! 3)"
    using be_value [of "data ! 0" "data ! 1" "data ! 2" "data ! 3"] by blast
next
  assume "data = [0x00, 0x00, 0x01, 0x00]"
  then show "GetChipID d = Some (d2, Ok 256)"
    by (simp add: GetChipID_def sent rcv Let_def)
qed

text \<open>
  C9 on two ports: the device acknowledges the command and replies with the frame of the
  payload \<open>[0x00, 0x00, 0x01, 0x00]\<close> (the result is 256), or with the frame of the
  three-byte payload \<open>[0x00, 0x00, 0x01]\<close> (the result is \<open>ErrDevice\<close>).
\<close>

theorem GetChipID_reply_witness:
  "GetChipID (new_port (bytes_then_silence [0xCC, 0x06, 0x01, 0x00, 0x00, 0x01, 0x00]))
     = Some (wrote (skip (skip (wrote
          (new_port (bytes_then_silence [0xCC, 0x06, 0x01, 0x00, 0x00, 0x01, 0x00]))
          [0x03, 0x28, 0x28]) 1) 6) [CC_ACK], Ok 256)
   \<and> GetChipID (new_port (bytes_then_silence [0xCC, 0x05, 0x01, 0x00, 0x00, 0x01]))
     = Some (wrote (skip (skip (wrote
          (new_port (bytes_then_silence [0xCC, 0x05, 0x01, 0x00, 0x00, 0x01]))
          [0x03, 0x28, 0x28]) 1) 5) [CC_ACK], Err ErrDevice)"
proof -
  let ?d = "new_port (bytes_then_silence [0xCC, 0x06, 0x01, 0x00, 0x00, 0x01, 0x00])"
  let ?d1 = "skip (wrote ?d [0x03, 0x28, 0x28]) 1"
  have "SendPacket ?d [0x03, 0x28, 0x28] = Some (?d1, Ok ())"
    by (rule SendPacket_acked) (simp_all add: bytes_then_silence_def CC_ACK_def)
  then have s: "SendPacket ?d (encodeCmdPacket COMMAND_GET_CHIP_ID []) = Some (?d1, Ok ())"
    by (simp add: frame_GetChipID)
  have "RecvPacket ?d1
        = Some (wrote (skip ?d1 (Suc (length [0x01, 0x00, 0x00, 0x01, 0x00 :: byte]))) [CC_ACK],
                Ok [0x00, 0x00, 0x01, 0x00])"
    by (rule RecvPacket_valid)
      (simp_all add: reads_bytes_Cons bytes_then_silence_def decodePacket_def encodeSize_def
        checksum_def)
  then have r: "RecvPacket ?d1 = Some (wrote (skip ?d1 6) [CC_ACK], Ok [0x00, 0x00, 0x01, 0x00])"
    by simp
  let ?e = "new_port (bytes_then_silence [0xCC, 0x05, 0x01, 0x00, 0x00, 0x01])"
  let ?e1 = "skip (wrote ?e [0x03, 0x28, 0x28]) 1"
  have "SendPacket ?e [0x03, 0x28, 0x28] = Some (?e1, Ok ())"
    by (rule SendPacket_acked) (simp_all add: bytes_then_silence_def CC_ACK_def)
  then have s': "SendPacket ?e (encodeCmdPacket COMMAND_GET_CHIP_ID []) = Some (?e1, Ok ())"
    by (simp add: frame_GetChipID)
  have "RecvPacket ?e1
        = Some (wrote (skip ?e1 (Suc (length [0x01, 0x00, 0x00, 0x01 :: byte]))) [CC_ACK],
                Ok [0x00, 0x00, 0x01])"
    by (rule RecvPacket_valid)
      (simp_all add: reads_bytes_Cons bytes_then_silence_def decodePacket_def encodeSize_def
        checksum_def)
  then have r': "RecvPacket ?e1 = Some (wrote (skip ?e1 5) [CC_ACK], Ok [0x00, 0x00, 0x01])"
    by simp
  show ?thesis
    using GetChipID_reply [OF s r] GetChipID_reply [OF s' r'] by simp
qed


lemma length_bytes_of_uint32 [simp]: "length (bytes_of_uint32 v) = 4"
  by (simp add: bytes_of_uint32_def)

lemma bytes_of_uint32_0: "bytes_of_uint32 0 = [0x00, 0x00, 0x00, 0x00]"
  by (simp add: bytes_of_uint32_def)

lemma CRC32_reply:
  assumes sent: "SendPacket d (encodeCmdPacket COMMAND_CRC32
                    (bytes_of_uint32 address @ bytes_of_uint32 sz @ bytes_of_uint32 rcount))
                 = Some (d1, Ok ())"
    and rcv: "RecvPacket d1 = Some (d2, Ok data)"
  shows "length data < 4 \<Longrightarrow> CRC32 d address sz rcount = Some (d2, Panic)"
    and "4 \<le> length data \<Longrightarrow>
      CRC32 d address sz rcount
        = Some (d2, Ok (((((0 :: uint32) OR push_bit (3 * 8) (ucast (data ! 0)))
               OR push_bit (2 * 8) (ucast (data ! 1)))
               OR push_bit (1 * 8) (ucast (data ! 2)))
               OR push_bit (0 * 8) (ucast (data ! 3))))"
proof -
  show "CRC32 d address sz rcount = Some (d2, Panic)" if "length data < 4"
    using that by (auto simp add: CRC32_def sent rcv Let_def)
  show "CRC32 d address sz rcount
        = Some (d2, Ok (((((0 :: uint32) OR push_bit (3 * 8) (ucast (data ! 0)))
               OR push_bit (2 * 8) (ucast (data ! 1)))
               OR push_bit (1 * 8) (ucast (data ! 2)))
               OR push_bit (0 * 8) (ucast (data ! 3))))" if "4 \<le> length data"
    using that by (auto simp add: CRC32_def sent rcv Let_def)
qed

lemma frame_CRC32_0:
  "encodeCmdPacket COMMAND_CRC32 (bytes_of_uint32 0 @ bytes_of_uint32 0 @ bytes_of_uint32 0)
   = [0x0F, 0x27, 0x27, 0, 0, 0, 0, 0, 0, 0, 0, 0, 0, 0, 0]"
  by (simp add: encodeCmdPacket_eq encodeSize_def checksum_def COMMAND_CRC32_def
      bytes_of_uint32_0)

text \<open>
  C7, the code at two replies whose payload is not 4 bytes long. The device acknowledges
  the command \<open>CRC32(0, 0, 0)\<close>; when it replies with the valid frame
  \<open>0x03 0x01 0x01\<close> (the one-byte payload \<open>[0x01]\<close>), \<open>CRC32\<close> acknowledges the
  reply and then panics on \<open>data[1]\<close>; when it replies with the valid frame of the
  five-byte payload \<open>[0x00, 0x00, 0x00, 0x01, 0x02]\<close>, \<open>CRC32\<close> returns the value 1
  of the first four bytes with no error. \<open>GetChipID\<close> and \<open>GetStatus\<close> check the
  length of their reply and return \<open>ErrDevice\<close>; \<open>CRC32\<close> has no such check.
\<close>

theorem CRC32_short_reply_panics:
  "CRC32 (new_port (bytes_then_silence [0xCC, 0x03, 0x01, 0x01])) 0 0 0
     = Some (wrote (skip (skip (wrote (new_port (bytes_then_silence [0xCC, 0x03, 0x01, 0x01]))
          [0x0F, 0x27, 0x27, 0, 0, 0, 0, 0, 0, 0, 0, 0, 0, 0, 0]) 1) 3) [CC_ACK], Panic)
   \<and> CRC32 (new_port (bytes_then_silence [0xCC, 0x07, 0x03, 0x00, 0x00, 0x00, 0x01, 0x02]))
          0 0 0
     = Some (wrote (skip (skip (wrote
          (new_port (bytes_then_silence [0xCC, 0x07, 0x03, 0x00, 0x00, 0x00, 0x01, 0x02]))
          [0x0F, 0x27, 0x27, 0, 0, 0, 0, 0, 0, 0, 0, 0, 0, 0, 0]) 1) 7) [CC_ACK], Ok 1)"
proof -
  let ?f = "[0x0F, 0x27, 0x27, 0, 0, 0, 0, 0, 0, 0, 0, 0, 0, 0, 0] :: byte list"
  let ?d = "new_port (bytes_then_silence [0xCC, 0x03, 0x01, 0x01])"
  let ?d1 = "skip (wrote ?d ?f) 1"
  have "SendPacket ?d ?f = Some (?d1, Ok ())"
    by (rule SendPacket_acked) (simp_all add: bytes_then_silence_def CC_ACK_def)
  then have s: "SendPacket ?d (encodeCmdPacket COMMAND_CRC32
        (bytes_of_uint32 0 @ bytes_of_uint32 0 @ bytes_of_uint32 0)) = Some (?d1, Ok ())"
    by (simp only: frame_CRC32_0)
  have "RecvPacket ?d1
        = Some (wrote (skip ?d1 (Suc (length [0x01, 0x01 :: byte]))) [CC_ACK], Ok [0x01])"
    by (rule RecvPacket_valid)
      (simp_all add: reads_bytes_Cons bytes_then_silence_def decodePacket_def encodeSize_def
        checksum_def)
  then have r: "RecvPacket ?d1 = Some (wrote (skip ?d1 3) [CC_ACK], Ok [0x01])"
    by simp
  have 1: "CRC32 ?d 0 0 0 = Some (wrote (skip ?d1 3) [CC_ACK], Panic)"
    by (rule CRC32_reply(1) [OF s r]) simp
  let ?e = "new_port (bytes_then_silence [0xCC, 0x07, 0x03, 0x00, 0x00, 0x00, 0x01, 0x02])"
  let ?e1 = "skip (wrote ?e ?f) 1"
  have "SendPacket ?e ?f = Some (?e1, Ok ())"
    by (rule SendPacket_acked) (simp_all add: bytes_then_silence_def CC_ACK_def)
  then have s': "SendPacket ?e (encodeCmdPacket COMMAND_CRC32
        (bytes_of_uint32 0 @ bytes_of_uint32 0 @ bytes_of_uint32 0)) = Some (?e1, Ok ())"
    by (simp only: frame_CRC32_0)
  have "RecvPacket ?e1
        = Some (wrote (skip ?e1 (Suc (length [0x03, 0x00, 0x00, 0x00, 0x01, 0x02 :: byte])))
                  [CC_ACK], Ok [0x00, 0x00, 0x00, 0x01, 0x02])"
    by (rule RecvPacket_valid)
      (simp_all add: reads_bytes_Cons bytes_then_silence_def decodePacket_def encodeSize_def
        checksum_def)
  then have r': "RecvPacket ?e1
        = Some (wrote (skip ?e1 7) [CC_ACK], Ok [0x00, 0x00, 0x00, 0x01, 0x02])"
    by simp
  have 2: "CRC32 ?e 0 0 0 = Some (wrote (skip ?e1 7) [CC_ACK], Ok 1)"
    using CRC32_reply(2) [OF s' r'] by simp
  show ?thesis using 1 2 by simp
qed

text \<open>
  C5, the code: for every field and value, the frame that \<open>SetCCFG\<close> sends has the
  command-type byte \<open>0x27\<close> (\<open>COMMAND_CRC32\<close>) in front of the two big-endian
  arguments, not \<open>0x2D\<close> (\<open>COMMAND_SET_CCFG\<close>). On a port that acknowledges,
  \<open>SetCCFG(0, 0)\<close> writes the frame \<open>0x0B 0x27 0x27 0x00 ... 0x00\<close>.
\<close>

theorem SetCCFG_sends_CRC32_type:
  "SetCCFG d fid val
     = SendPacket d (0x0B # checksum (0x27 # bytes_of_uint32 fid @ bytes_of_uint32 val)
                      # 0x27 # bytes_of_uint32 fid @ bytes_of_uint32 val)
   \<and> COMMAND_CRC32 = 0x27 \<and> COMMAND_SET_CCFG = 0x2D
   \<and> SetCCFG (new_port (bytes_then_silence [0xCC])) 0 0
       = Some (skip (wrote (new_port (bytes_then_silence [0xCC]))
                 [0x0B, 0x27, 0x27, 0, 0, 0, 0, 0, 0, 0, 0]) 1, Ok ())"
proof -
  have 1: "SetCCFG d fid val
     = SendPacket d (0x0B # checksum (0x27 # bytes_of_uint32 fid @ bytes_of_uint32 val)
                      # 0x27 # bytes_of_uint32 fid @ bytes_of_uint32 val)" for d fid val
    by (simp add: SetCCFG_def encodeCmdPacket_eq encodeSize_def COMMAND_CRC32_def Let_def)
  let ?d = "new_port (bytes_then_silence [0xCC])"
  have "SendPacket ?d [0x0B, 0x27, 0x27, 0, 0, 0, 0, 0, 0, 0, 0]
        = Some (skip (wrote ?d [0x0B, 0x27, 0x27, 0, 0, 0, 0, 0, 0, 0, 0]) 1, Ok ())"
    by (rule SendPacket_acked) (simp_all add: bytes_then_silence_def CC_ACK_def)
  then have 2: "SetCCFG ?d 0 0
       = Some (skip (wrote ?d [0x0B, 0x27, 0x27, 0, 0, 0, 0, 0, 0, 0, 0]) 1, Ok ())"
    by (simp add: 1 bytes_of_uint32_0 checksum_def)
  show ?thesis
    using 1 2 by (simp add: COMMAND_CRC32_def COMMAND_SET_CCFG_def)
qed


lemma byte_gt_253: "(count :: byte) > 253 \<longleftrightarrow> count = 254 \<or> count = 255"
proof -
  have "unat count < 256" using unsigned_less [of count] by simp
  moreover have "count > 253 \<longleftrightarrow> unat count > 253" by (simp add: word_less_nat_alt)
  moreover have "count = 254 \<longleftrightarrow> unat count = 254" by (simp add: word_unat_eq_iff)
  moreover have "count = 255 \<longleftrightarrow> unat count = 255" by (simp add: word_unat_eq_iff)
  ultimately show ?thesis by arith
qed

lemma MemoryRead_accepted:
  assumes acc: "\<not> (typ = ReadWriteType8Bit \<and> count > ReadMaxCount8Bit)"
      "\<not> (typ = ReadWriteType32Bit \<and> count > ReadMaxCount32Bit)"
    and run: "MemoryRead d address typ count = Some (d', r)"
  shows "\<exists>ws. written d' = written d
            @ encodeCmdPacket COMMAND_MEMORY_READ (bytes_of_uint32 address @ [typ, count]) # ws"
proof -
  let ?f = "encodeCmdPacket COMMAND_MEMORY_READ (bytes_of_uint32 address @ [typ, count])"
  from acc run obtain d1 r1 where s: "SendPacket d ?f = Some (d1, r1)"
    by (cases "SendPacket d ?f") (auto simp add: MemoryRead_def Let_def)
  from SendPacket_first_write [OF s] obtain ws where ws: "written d1 = written d @ ?f # ws" ..
  show ?thesis
  proof (cases r1)
    case (Ok u)
    with acc run s have "RecvPacket d1 = Some (d', r)"
      by (auto simp add: MemoryRead_def Let_def)
    from RecvPacket_appends [OF this] obtain ws' where "written d' = written d1 @ ws'" ..
    with ws have "written d' = written d @ ?f # (ws @ ws')" by simp
    then show ?thesis ..
  next
    case (Err e)
    with acc run s have "d' = d1" by (auto simp add: MemoryRead_def Let_def)
    with ws show ?thesis by blast
  next
    case Panic
    with acc run s have "d' = d1" by (auto simp add: MemoryRead_def Let_def)
    with ws show ?thesis by blast
  qed
qed

text \<open>
  C8: \<open>MemoryRead\<close> returns \<open>ErrBadArguments\<close> with the port untouched (no read, no
  write) exactly when the type is 8-bit and the count is 254 or 255, or the type is
  32-bit and the count is above 63. With the count 253 in 8-bit mode, and with the count
  63 in 32-bit mode, the call is accepted: once the frame of the command is sent and
  acknowledged it is the reception of the reply packet, and whenever it returns, the
  first thing it has done to the port is the write of that frame.
\<close>

theorem MemoryRead_arguments:
  "(MemoryRead d address typ count = Some (d, Err ErrBadArguments) \<longleftrightarrow>
      (typ = ReadWriteType8Bit \<and> (count = 254 \<or> count = 255))
      \<or> (typ = ReadWriteType32Bit \<and> count > 63))
   \<and> (((typ = ReadWriteType8Bit \<and> count = 253) \<or> (typ = ReadWriteType32Bit \<and> count = 63)) \<longrightarrow>
        (\<forall>d1. SendPacket d (encodeCmdPacket COMMAND_MEMORY_READ
                            (bytes_of_uint32 address @ [typ, count])) = Some (d1, Ok ()) \<longrightarrow>
           MemoryRead d address typ count = RecvPacket d1)
        \<and> (\<forall>d' r. MemoryRead d address typ count = Some (d', r) \<longrightarrow>
           (\<exists>ws. written d' = written d
              @ encodeCmdPacket COMMAND_MEMORY_READ (bytes_of_uint32 address @ [typ, count])
                # ws)))"
proof (intro conjI impI allI)
  let ?rej = "(typ = ReadWriteType8Bit \<and> (count = 254 \<or> count = 255))
      \<or> (typ = ReadWriteType32Bit \<and> count > 63)"
  have rej: "?rej \<longleftrightarrow> (typ = ReadWriteType8Bit \<and> count > ReadMaxCount8Bit)
      \<or> (typ = ReadWriteType32Bit \<and> count > ReadMaxCount32Bit)"
    by (simp add: ReadMaxCount8Bit_def ReadMaxCount32Bit_def byte_gt_253)
  show "MemoryRead d address typ count = Some (d, Err ErrBadArguments) \<longleftrightarrow> ?rej"
  proof
    assume ?rej
    then show "MemoryRead d address typ count = Some (d, Err ErrBadArguments)"
      unfolding rej by (auto simp add: MemoryRead_def)
  next
    assume run: "MemoryRead d address typ count = Some (d, Err ErrBadArguments)"
    show ?rej
    proof (rule ccontr)
      assume "\<not> ?rej"
      then have "\<not> (typ = ReadWriteType8Bit \<and> count > ReadMaxCount8Bit)"
        "\<not> (typ = ReadWriteType32Bit \<and> count > ReadMaxCount32Bit)"
        unfolding rej by auto
      from MemoryRead_accepted [OF this run] show False by simp
    qed
  qed
next
  fix d1
  assume c: "(typ = ReadWriteType8Bit \<and> count = 253) \<or> (typ = ReadWriteType32Bit \<and> count = 63)"
    and sent: "SendPacket d (encodeCmdPacket COMMAND_MEMORY_READ
                            (bytes_of_uint32 address @ [typ, count])) = Some (d1, Ok ())"
  from c have "\<not> (typ = ReadWriteType8Bit \<and> count > ReadMaxCount8Bit)"
    "\<not> (typ = ReadWriteType32Bit \<and> count > ReadMaxCount32Bit)"
    by (auto simp add: ReadMaxCount8Bit_def ReadMaxCount32Bit_def ReadWriteType8Bit_def
        ReadWriteType32Bit_def)
  then show "MemoryRead d address typ count = RecvPacket d1"
    using sent by (auto simp add: MemoryRead_def Let_def)
next
  fix d' r
  assume c: "(typ = ReadWriteType8Bit \<and> count = 253) \<or> (typ = ReadWriteType32Bit \<and> count = 63)"
    and run: "MemoryRead d address typ count = Some (d', r)"
  from c have "\<not> (typ = ReadWriteType8Bit \<and> count > ReadMaxCount8Bit)"
    "\<not> (typ = ReadWriteType32Bit \<and> count > ReadMaxCount32Bit)"
    by (auto simp add: ReadMaxCount8Bit_def ReadMaxCount32Bit_def ReadWriteType8Bit_def
        ReadWriteType32Bit_def)
  from MemoryRead_accepted [OF this run]
  show "\<exists>ws. written d' = written d
              @ encodeCmdPacket COMMAND_MEMORY_READ (bytes_of_uint32 address @ [typ, count]) # ws" .
qed


text \<open>
  C8 on a silent port: the counts 254 (8-bit) and 64 (32-bit) are refused, the counts
  253 (8-bit) and 63 (32-bit) are not. On a port that acknowledges the command and
  replies with the frame \<open>0x03 0x01 0x01\<close>, the call with the count 253 in 8-bit
  mode writes the frame of the command, reads the reply, acknowledges it and returns
  its payload.
\<close>

theorem MemoryRead_arguments_witness:
  "MemoryRead (new_port (bytes_then_silence [])) 0 ReadWriteType8Bit 254
     = Some (new_port (bytes_then_silence []), Err ErrBadArguments)
   \<and> MemoryRead (new_port (bytes_then_silence [])) 0 ReadWriteType32Bit 64
     = Some (new_port (bytes_then_silence []), Err ErrBadArguments)
   \<and> MemoryRead (new_port (bytes_then_silence [])) 0 ReadWriteType8Bit 253
     \<noteq> Some (new_port (bytes_then_silence []), Err ErrBadArguments)
   \<and> MemoryRead (new_port (bytes_then_silence [])) 0 ReadWriteType32Bit 63
     \<noteq> Some (new_port (bytes_then_silence []), Err ErrBadArguments)
   \<and> MemoryRead (new_port (bytes_then_silence [0xCC, 0x03, 0x01, 0x01])) 0 ReadWriteType8Bit 253
     = Some (wrote (skip (skip (wrote (new_port (bytes_then_silence [0xCC, 0x03, 0x01, 0x01]))
          [0x09, 0x27, 0x2A, 0, 0, 0, 0, 0x00, 0xFD]) 1) 3) [CC_ACK], Ok [0x01])"
proof -
  let ?s = "new_port (bytes_then_silence [])"
  have 1: "MemoryRead ?s 0 ReadWriteType8Bit 254 = Some (?s, Err ErrBadArguments)"
    using MemoryRead_arguments [of ?s 0 ReadWriteType8Bit 254] by simp
  have 2: "MemoryRead ?s 0 ReadWriteType32Bit 64 = Some (?s, Err ErrBadArguments)"
    using MemoryRead_arguments [of ?s 0 ReadWriteType32Bit 64]
    by (simp add: ReadWriteType8Bit_def ReadWriteType32Bit_def)
  have 3: "MemoryRead ?s 0 ReadWriteType8Bit 253 \<noteq> Some (?s, Err ErrBadArguments)"
    using MemoryRead_arguments [of ?s 0 ReadWriteType8Bit 253, THEN conjunct1]
    by (simp add: ReadWriteType8Bit_def ReadWriteType32Bit_def)
  have 4: "MemoryRead ?s 0 ReadWriteType32Bit 63 \<noteq> Some (?s, Err ErrBadArguments)"
    using MemoryRead_arguments [of ?s 0 ReadWriteType32Bit 63, THEN conjunct1]
    by (simp add: ReadWriteType8Bit_def ReadWriteType32Bit_def)
  let ?d = "new_port (bytes_then_silence [0xCC, 0x03, 0x01, 0x01])"
  let ?f = "[0x09, 0x27, 0x2A, 0, 0, 0, 0, 0x00, 0xFD] :: byte list"
  let ?d1 = "skip (wrote ?d ?f) 1"
  have f: "encodeCmdPacket COMMAND_MEMORY_READ (bytes_of_uint32 0 @ [ReadWriteType8Bit, 253]) = ?f"
    by (simp add: encodeCmdPacket_eq encodeSize_def checksum_def COMMAND_MEMORY_READ_def
        bytes_of_uint32_0 ReadWriteType8Bit_def)
  have "SendPacket ?d ?f = Some (?d1, Ok ())"
    by (rule SendPacket_acked) (simp_all add: bytes_then_silence_def CC_ACK_def)
  with MemoryRead_arguments [of ?d 0 ReadWriteType8Bit 253, THEN conjunct2]
  have "MemoryRead ?d 0 ReadWriteType8Bit 253 = RecvPacket ?d1"
    unfolding f by blast
  moreover have "RecvPacket ?d1
        = Some (wrote (skip ?d1 (Suc (length [0x01, 0x01 :: byte]))) [CC_ACK], Ok [0x01])"
    by (rule RecvPacket_valid)
      (simp_all add: reads_bytes_Cons bytes_then_silence_def decodePacket_def encodeSize_def
        checksum_def)
  ultimately have 5: "MemoryRead ?d 0 ReadWriteType8Bit 253
        = Some (wrote (skip ?d1 3) [CC_ACK], Ok [0x01])"
    by simp
  from 1 2 3 4 5 show ?thesis by blast
qed

lemma unat_len_byte: "n \<le> 255 \<Longrightarrow> unat (word_of_int (int n) :: byte) = n"
  by (simp add: unat_of_nat)

lemma MemoryWrite_accepted:
  assumes acc: "\<not> (typ = ReadWriteType8Bit
                    \<and> (word_of_int (int (length data)) :: byte) > WriteMaxCount8Bit)"
      "\<not> (typ = ReadWriteType32Bit
            \<and> (word_of_int (int (length data)) :: byte) > WriteMaxCount32Bit)"
  shows "MemoryWrite d address typ data
         = SendPacket d (encodeCmdPacket COMMAND_MEMORY_WRITE
                           (bytes_of_uint32 address @ [typ] @ data))"
  using acc by (auto simp add: MemoryWrite_def Let_def)

text \<open>
  The two guards of \<open>MemoryWrite\<close> compare \<open>uint8(len(data))\<close>: a slice of 256 bytes
  has the truncated length 0 and passes them.
\<close>

lemma MemoryWrite_length_truncated:
  "MemoryWrite d address ReadWriteType8Bit (replicate 256 0)
   = SendPacket d (encodeCmdPacket COMMAND_MEMORY_WRITE
                     (bytes_of_uint32 address @ [ReadWriteType8Bit] @ replicate 256 0))"
  by (rule MemoryWrite_accepted)
    (simp_all add: WriteMaxCount8Bit_def ReadWriteType8Bit_def ReadWriteType32Bit_def)

text \<open>
  C6, as the code has it: for a data slice of at most 255 bytes, \<open>MemoryWrite\<close> returns
  \<open>ErrBadArguments\<close> with the port untouched exactly when \<open>len(data) > 247\<close> in 8-bit
  mode or \<open>len(data) > 244\<close> in 32-bit mode. Every other call, a 32-bit write of a
  length that is not a multiple of 4 included, is the sending of the frame of the
  command, and its first write to the port is that frame. In 32-bit mode the length 245
  is refused and the length 244 is accepted.
\<close>

theorem MemoryWrite_arguments:
  assumes len: "length data \<le> 255"
  shows
  "(MemoryWrite d address typ data = Some (d, Err ErrBadArguments) \<longleftrightarrow>
      (typ = ReadWriteType8Bit \<and> length data > 247)
      \<or> (typ = ReadWriteType32Bit \<and> length data > 244))
   \<and> (\<not> ((typ = ReadWriteType8Bit \<and> length data > 247)
          \<or> (typ = ReadWriteType32Bit \<and> length data > 244)) \<longrightarrow>
        MemoryWrite d address typ data
          = SendPacket d (encodeCmdPacket COMMAND_MEMORY_WRITE
                            (bytes_of_uint32 address @ [typ] @ data))
        \<and> (\<forall>d' r. MemoryWrite d address typ data = Some (d', r) \<longrightarrow>
             (\<exists>ws. written d' = written d
                @ encodeCmdPacket COMMAND_MEMORY_WRITE (bytes_of_uint32 address @ [typ] @ data)
                  # ws)))
   \<and> (typ = ReadWriteType32Bit \<and> length data = 245 \<longrightarrow>
        MemoryWrite d address typ data = Some (d, Err ErrBadArguments))
   \<and> (typ = ReadWriteType32Bit \<and> length data = 244 \<longrightarrow>
        MemoryWrite d address typ data \<noteq> Some (d, Err ErrBadArguments))"
proof -
  let ?rej = "(typ = ReadWriteType8Bit \<and> length data > 247)
      \<or> (typ = ReadWriteType32Bit \<and> length data > 244)"
  let ?f = "encodeCmdPacket COMMAND_MEMORY_WRITE (bytes_of_uint32 address @ [typ] @ data)"
  note u = unat_len_byte [OF len]
  have c8: "(word_of_int (int (length data)) :: byte) > WriteMaxCount8Bit \<longleftrightarrow> length data > 247"
    unfolding word_less_nat_alt u WriteMaxCount8Bit_def by simp
  have c32: "(word_of_int (int (length data)) :: byte) > WriteMaxCount32Bit \<longleftrightarrow> length data > 244"
    unfolding word_less_nat_alt u WriteMaxCount32Bit_def by simp
  have rejected: "MemoryWrite d address typ data = Some (d, Err ErrBadArguments)" if ?rej
    using that unfolding MemoryWrite_def c8 c32 by auto
  have accepted: "MemoryWrite d address typ data = SendPacket d ?f" if "\<not> ?rej"
    using that unfolding MemoryWrite_def c8 c32 Let_def by auto
  have io: "\<exists>ws. written d' = written d @ ?f # ws"
    if "\<not> ?rej" "MemoryWrite d address typ data = Some (d', r)" for d' r
    using SendPacket_first_write [of d ?f d' r] accepted [OF that(1)] that(2) by simp
  have iff: "MemoryWrite d address typ data = Some (d, Err ErrBadArguments) \<longleftrightarrow> ?rej"
    using rejected io [of d "Err ErrBadArguments"] by auto
  show ?thesis
    using iff accepted io by (auto simp add: ReadWriteType8Bit_def ReadWriteType32Bit_def)
qed

text \<open>
  C6 on a silent port, in 32-bit mode: 245 bytes are refused, 244 bytes are not.
\<close>

theorem MemoryWrite_arguments_witness:
  "length (replicate 245 (0 :: byte)) \<le> 255
   \<and> MemoryWrite (new_port (bytes_then_silence [])) 0 ReadWriteType32Bit (replicate 245 0)
      = Some (new_port (bytes_then_silence []), Err ErrBadArguments)
   \<and> length (replicate 244 (0 :: byte)) \<le> 255
   \<and> MemoryWrite (new_port (bytes_then_silence [])) 0 ReadWriteType32Bit (replicate 244 0)
      \<noteq> Some (new_port (bytes_then_silence []), Err ErrBadArguments)"
proof -
  let ?d = "new_port (bytes_then_silence [])"
  have l5: "length (replicate 245 (0 :: byte)) \<le> 255"
    and l4: "length (replicate 244 (0 :: byte)) \<le> 255" by simp_all
  from MemoryWrite_arguments [OF l5, of ?d 0 ReadWriteType32Bit,
      THEN conjunct2, THEN conjunct2, THEN conjunct1]
  have 1: "MemoryWrite ?d 0 ReadWriteType32Bit (replicate 245 0) = Some (?d, Err ErrBadArguments)"
    by simp
  from MemoryWrite_arguments [OF l4, of ?d 0 ReadWriteType32Bit,
      THEN conjunct2, THEN conjunct2, THEN conjunct2]
  have 2: "MemoryWrite ?d 0 ReadWriteType32Bit (replicate 244 0) \<noteq> Some (?d, Err ErrBadArguments)"
    by simp
  from l5 1 l4 2 show ?thesis by blast
qed

text \<open>
  C6 as stated fails at a 32-bit write of the three bytes \<open>[0x01, 0x02, 0x03]\<close>: the
  length is not a multiple of 4, the code only logs it, and on a port that acknowledges
  the frame is written and the call succeeds.
\<close>

theorem MemoryWrite_unaligned_sent:
  "int (length [0x01, 0x02, 0x03 :: byte]) mod 4 \<noteq> 0
   \<and> MemoryWrite_logs ReadWriteType32Bit [0x01, 0x02, 0x03]
   \<and> MemoryWrite (new_port (bytes_then_silence [0xCC])) 0 ReadWriteType32Bit [0x01, 0x02, 0x03]
       = Some (skip (wrote (new_port (bytes_then_silence [0xCC]))
                 [0x0B, 0x32, 0x2B, 0, 0, 0, 0, 0x01, 0x01, 0x02, 0x03]) 1, Ok ())
   \<and> MemoryWrite (new_port (bytes_then_silence [0xCC])) 0 ReadWriteType32Bit [0x01, 0x02, 0x03]
       \<noteq> Some (new_port (bytes_then_silence [0xCC]), Err ErrBadArguments)"
proof -
  let ?d = "new_port (bytes_then_silence [0xCC])"
  let ?f = "[0x0B, 0x32, 0x2B, 0, 0, 0, 0, 0x01, 0x01, 0x02, 0x03] :: byte list"
  have f: "encodeCmdPacket COMMAND_MEMORY_WRITE
             (bytes_of_uint32 0 @ [ReadWriteType32Bit] @ [0x01, 0x02, 0x03]) = ?f"
    by (simp add: encodeCmdPacket_eq encodeSize_def checksum_def COMMAND_MEMORY_WRITE_def
        bytes_of_uint32_0 ReadWriteType32Bit_def)
  have "MemoryWrite ?d 0 ReadWriteType32Bit [0x01, 0x02, 0x03] = SendPacket ?d ?f"
    unfolding f [symmetric]
    by (rule MemoryWrite_accepted)
      (simp_all add: ReadWriteType8Bit_def ReadWriteType32Bit_def WriteMaxCount32Bit_def)
  moreover have "SendPacket ?d ?f = Some (skip (wrote ?d ?f) 1, Ok ())"
    by (rule SendPacket_acked) (simp_all add: bytes_then_silence_def CC_ACK_def)
  ultimately show ?thesis
    by (simp add: MemoryWrite_logs_def)
qed

end
